theory Spec2Isabelle
  imports
    Complex_Main
    "HOL-Library.Word"
    "HOL-Library.Log_Nat"
    "HOL-Library.Signed_Division"
    "HOL-Library.Multiset"
begin

unbundle bit_operations_syntax

section \<open>Machine types of main.go\<close>

type_synonym byte = "8 word"
type_synonym int16 = "16 word"
type_synonym int64 = "64 word"

subsection \<open>float64 values of the audio path\<close>

text \<open>
  The audio path uses float64 in one expression only,
  \<^verbatim>\<open>int16(float64(y.buffer[i]) * y.volume)\<close>. Its values are modelled exactly:
  \<open>Finite m e\<close> is the number \<open>m * 2 ^ e\<close> (a float64 has such a form with
  \<open>\<bar>m\<bar> < 2 ^ 53\<close> and \<open>e\<close> from -1074 to 971), and the product of two finite values is
  rounded to 53 significant bits, to nearest with ties to even, as IEEE 754 binary64
  does (quantum never below \<open>2 ^ -1074\<close>, overflow to an infinity). \<open>Infinity s\<close> is
  the infinity of sign \<open>s\<close> (\<open>True\<close> for the negative one). The sign of a zero is not
  kept: no operation of the program distinguishes the two zeros.
\<close>

datatype f64 = Finite int int | Infinity bool | NaN

fun f64_val :: "f64 \<Rightarrow> real option" where
  "f64_val (Finite m e) = Some (of_int m * 2 powi e)"
| "f64_val (Infinity s) = None"
| "f64_val NaN = None"

text \<open>\<open>rne m sh\<close>: the integer nearest to \<open>m / 2 ^ sh\<close>, ties to the even one.\<close>

definition rne :: "int \<Rightarrow> nat \<Rightarrow> int" where
  "rne m sh =
     (let q = m div 2 ^ sh; r = m mod 2 ^ sh in
      if 2 * r < 2 ^ sh then q
      else if 2 ^ sh < 2 * r then q + 1
      else if even q then q else q + 1)"

definition round53 :: "int \<Rightarrow> int \<Rightarrow> f64" where
  "round53 m e =
     (let sh = nat (max (bitlen \<bar>m\<bar> - 53) (- 1074 - e));
          m' = rne m sh;
          e' = e + int sh
      in if m' \<noteq> 0 \<and> 1024 < bitlen \<bar>m'\<bar> + e' then Infinity (m < 0) else Finite m' e')"

fun f64_mul :: "f64 \<Rightarrow> f64 \<Rightarrow> f64" where
  "f64_mul (Finite m1 e1) (Finite m2 e2) = round53 (m1 * m2) (e1 + e2)"
| "f64_mul (Finite m e) (Infinity s) = (if m = 0 then NaN else Infinity (s \<noteq> (m < 0)))"
| "f64_mul (Infinity s) (Finite m e) = (if m = 0 then NaN else Infinity (s \<noteq> (m < 0)))"
| "f64_mul (Infinity s) (Infinity t) = Infinity (s \<noteq> t)"
| "f64_mul NaN b = NaN"
| "f64_mul a NaN = NaN"

text \<open>\<^verbatim>\<open>float64(s)\<close> for an int16: exact.\<close>

definition f64_of_int16 :: "int16 \<Rightarrow> f64" where
  "f64_of_int16 s = Finite (sint s) 0"

text \<open>
  \<^verbatim>\<open>int16(f)\<close>: the fraction is discarded (truncation towards zero). When the
  truncated value does not fit int16, or \<open>f\<close> is an infinity or NaN, Go leaves the result
  to the implementation: that result is the parameter \<open>K\<close>.
\<close>

definition f64_trunc :: "int \<Rightarrow> int \<Rightarrow> int" where
  "f64_trunc m e = (if 0 \<le> e then m * 2 ^ nat e else sgn m * (\<bar>m\<bar> div 2 ^ nat (- e)))"

fun int16_of_f64 :: "(f64 \<Rightarrow> int16) \<Rightarrow> f64 \<Rightarrow> int16" where
  "int16_of_f64 K (Finite m e) =
     (let t = f64_trunc m e in
      if - 32768 \<le> t \<and> t \<le> 32767 then word_of_int t else K (Finite m e))"
| "int16_of_f64 K (Infinity s) = K (Infinity s)"
| "int16_of_f64 K NaN = K NaN"

section \<open>The audio decoder adapter (YMPlayer)\<close>

subsection \<open>The external decoder\<close>

text \<open>
  The package stsound is imported, not part of the repository. Its operations are
  parameters of the model; \<open>'d\<close> is the state of one decoder object.
  \<^item> \<open>CreateWithRate rate\<close> is the fresh decoder.
  \<^item> \<open>LoadMemory d data\<close> returns the error (if any) and the decoder after the call.
  \<^item> \<open>MusicTimeInMs d\<close> is \<^verbatim>\<open>int64(d.GetInfo().MusicTimeInMs)\<close>.
  \<^item> \<open>Compute d slice n\<close> receives the contents of the slice it may write to and returns
    the flag, the contents it leaves in the slice, and the decoder after the call.
  \<^verbatim>\<open>Destroy\<close> has no result the program reads: a call of it is recorded in the list of
  destroyed decoders that \<open>NewYMPlayer\<close> and \<open>Close\<close> return.
\<close>

record 'd stsound =
  CreateWithRate :: "int64 \<Rightarrow> 'd"
  LoadMemory :: "'d \<Rightarrow> byte list \<Rightarrow> string option \<times> 'd"
  SetLoopMode :: "'d \<Rightarrow> bool \<Rightarrow> 'd"
  MusicTimeInMs :: "'d \<Rightarrow> int64"
  Compute :: "'d \<Rightarrow> int16 list \<Rightarrow> nat \<Rightarrow> bool \<times> int16 list \<times> 'd"

subsection \<open>State\<close>

text \<open>
  The struct YMPlayer. \<open>player = None\<close> is the nil pointer. The int fields are taken at
  64 bits. The mutex is not a field of the model: every method holds it from entry to
  return, so each method is one atomic step on the record.
\<close>

record 'd YMPlayer =
  player :: "'d option"
  sampleRate :: int64
  buffer :: "int16 list"
  position :: int64
  totalSamples :: int64
  loop :: bool
  volume :: f64

datatype error = EOF | InvalidWhence int | FailedToLoad string

datatype panic = NilPointerDereference

subsection \<open>NewYMPlayer\<close>

definition NewYMPlayer ::
  "'d stsound \<Rightarrow> byte list \<Rightarrow> int64 \<Rightarrow> bool \<Rightarrow> (error + 'd YMPlayer) \<times> 'd list" where
  "NewYMPlayer S data rate lp =
     (let player0 = CreateWithRate S rate in
      case LoadMemory S player0 data of
        (Some err, player1) \<Rightarrow> (Inl (FailedToLoad err), [player1])
      | (None, player1) \<Rightarrow>
          (let player2 = SetLoopMode S player1 lp;
               total = word_of_int (sint (MusicTimeInMs S player2 * rate) sdiv 1000)
           in (Inr \<lparr> player = Some player2,
                     sampleRate = rate,
                     buffer = replicate 4096 0,
                     position = 0,
                     totalSamples = total,
                     loop = lp,
                     volume = Finite 1 (- 1) \<rparr>,
               [])))"

subsection \<open>SetVolume, GetVolume\<close>

definition SetVolume :: "'d YMPlayer \<Rightarrow> f64 \<Rightarrow> 'd YMPlayer" where
  "SetVolume y v = y\<lparr>volume := v\<rparr>"

definition GetVolume :: "'d YMPlayer \<Rightarrow> f64" where
  "GetVolume y = volume y"

subsection \<open>Seek\<close>

text \<open>
  \<^verbatim>\<open>io.SeekStart\<close>, \<^verbatim>\<open>io.SeekCurrent\<close> and \<^verbatim>\<open>io.SeekEnd\<close> are 0, 1 and 2. The sums are
  int64 sums: they wrap around. The comparisons are signed.
\<close>

definition Seek :: "'d YMPlayer \<Rightarrow> int64 \<Rightarrow> int \<Rightarrow> (error + int64) \<times> 'd YMPlayer" where
  "Seek y offset whence =
     (if whence \<noteq> 0 \<and> whence \<noteq> 1 \<and> whence \<noteq> 2 then (Inl (InvalidWhence whence), y)
      else
        let newPos0 = (if whence = 0 then offset
                       else if whence = 1 then position y + offset
                       else totalSamples y + offset);
            newPos1 = (if newPos0 <s 0 then 0 else newPos0);
            newPos2 = (if totalSamples y <s newPos1 then totalSamples y else newPos1)
        in (Inr newPos2, y\<lparr>position := newPos2\<rparr>))"

subsection \<open>Close\<close>

text \<open>The result is the returned error (always nil), the state, and the decoders destroyed.\<close>

definition Close :: "'d YMPlayer \<Rightarrow> error option \<times> 'd YMPlayer \<times> 'd list" where
  "Close y =
     (case player y of
        Some d \<Rightarrow> (None, y\<lparr>player := None\<rparr>, [d])
      | None \<Rightarrow> (None, y, []))"

subsection \<open>Read\<close>

text \<open>
  \<^verbatim>\<open>y.buffer[:chunkSize]\<close> shares its elements with \<open>y.buffer\<close>: what \<open>Compute\<close> leaves in
  the slice is written back over the first elements of the buffer. A callee cannot
  change the length of the caller's slice, so \<open>write_back\<close> keeps the length.
\<close>

definition write_back :: "'a list \<Rightarrow> 'a list \<Rightarrow> 'a list" where
  "write_back old new = take (length old) new @ drop (length new) old"

text \<open>\<^verbatim>\<open>for i := processed * 2; i < len(outBuffer); i++ { outBuffer[i] = 0 }\<close>\<close>

definition zero_tail :: "nat \<Rightarrow> int16 list \<Rightarrow> int16 list" where
  "zero_tail processed outBuffer =
     fold (\<lambda>i out. out[i := 0]) [processed * 2 ..< length outBuffer] outBuffer"

text \<open>The inner loop over \<open>i < chunkSize\<close>: scale a sample, store it twice.\<close>

definition scale_sample :: "(f64 \<Rightarrow> int16) \<Rightarrow> f64 \<Rightarrow> int16 \<Rightarrow> int16" where
  "scale_sample K vol s = int16_of_f64 K (f64_mul (f64_of_int16 s) vol)"

definition emit_chunk ::
  "(f64 \<Rightarrow> int16) \<Rightarrow> f64 \<Rightarrow> int16 list \<Rightarrow> nat \<Rightarrow> nat \<Rightarrow> int16 list \<Rightarrow> int16 list" where
  "emit_chunk K vol buf processed chunkSize outBuffer =
     fold (\<lambda>i out.
             let sample = scale_sample K vol (buf ! i)
             in out[(processed + i) * 2 := sample, (processed + i) * 2 + 1 := sample])
          [0 ..< chunkSize] outBuffer"

text \<open>
  The loop \<^verbatim>\<open>for processed < samplesNeeded\<close>. It need not end: with an empty
  \<open>y.buffer\<close> the chunk size is 0 and \<open>processed\<close> never grows. \<open>None\<close> is a loop that
  does not return. When \<open>y.player\<close> is nil, \<open>Compute\<close> is called through the nil
  pointer; the model takes \<open>Compute\<close> to read its receiver, which is a run-time panic.
\<close>

partial_function (option) Read_loop ::
  "'d stsound \<Rightarrow> (f64 \<Rightarrow> int16) \<Rightarrow> nat \<Rightarrow> 'd YMPlayer \<Rightarrow> int16 list \<Rightarrow> nat
     \<Rightarrow> (panic + 'd YMPlayer \<times> int16 list \<times> error option) option" where
  "Read_loop S K samplesNeeded y outBuffer processed =
     (if processed < samplesNeeded then
        (let chunkSize = min (samplesNeeded - processed) (length (buffer y)) in
         case player y of
           None \<Rightarrow> Some (Inl NilPointerDereference)
         | Some d \<Rightarrow>
             (case Compute S d (take chunkSize (buffer y)) chunkSize of
                (avail, chunk, d') \<Rightarrow>
                  (let y1 = y\<lparr>player := Some d',
                               buffer := write_back (take chunkSize (buffer y)) chunk
                                           @ drop chunkSize (buffer y)\<rparr>
                   in if \<not> avail \<and> \<not> loop y1
                      then Some (Inr (y1, zero_tail processed outBuffer, Some EOF))
                      else Read_loop S K samplesNeeded
                             (y1\<lparr>position := position y1 + word_of_nat chunkSize\<rparr>)
                             (emit_chunk K (volume y1) (buffer y1) processed chunkSize outBuffer)
                             (processed + chunkSize))))
      else Some (Inr (y, outBuffer, None)))"

text \<open>\<^verbatim>\<open>buf = append(buf, byte(sample), byte(sample>>8))\<close> for every sample.\<close>

definition serialize :: "int16 list \<Rightarrow> byte list" where
  "serialize outBuffer =
     concat (map (\<lambda>sample. [ucast sample, ucast (signed_drop_bit 8 sample)]) outBuffer)"

text \<open>
  \<open>Read S K y p\<close>: \<open>p\<close> is the contents of the caller's slice. The result is the state
  after the call, the contents of the slice after \<^verbatim>\<open>copy(p, buf)\<close>, \<open>n\<close> and \<open>err\<close>.
\<close>

definition Read ::
  "'d stsound \<Rightarrow> (f64 \<Rightarrow> int16) \<Rightarrow> 'd YMPlayer \<Rightarrow> byte list
     \<Rightarrow> (panic + 'd YMPlayer \<times> byte list \<times> nat \<times> error option) option" where
  "Read S K y p =
     (let samplesNeeded = length p div 4;
          outBuffer = replicate (samplesNeeded * 2) 0
      in case Read_loop S K samplesNeeded y outBuffer 0 of
           None \<Rightarrow> None
         | Some (Inl pn) \<Rightarrow> Some (Inl pn)
         | Some (Inr (y', outBuffer', err)) \<Rightarrow>
             (let buf = serialize outBuffer';
                  p' = take (length p) buf @ drop (length buf) p;
                  n = (if length p < length buf then length p else length buf)
              in Some (Inr (y', p', n, err))))"

section \<open>The cube (Cube3D)\<close>

text \<open>
  The geometry computes with float64 through \<^verbatim>\<open>math.Cos\<close> and \<^verbatim>\<open>math.Sin\<close>. It is
  modelled over the real numbers: a coordinate or an angle is a \<open>real\<close>, the operations
  are exact. Rounding, infinities and NaN are outside this part of the model, except
  for the division in \<open>project3D\<close>, whose divisor can be zero.
\<close>

record Cube3D =
  angleX :: real
  angleY :: real
  angleZ :: real
  size :: real

definition NewCube3D :: "real \<Rightarrow> Cube3D" where
  "NewCube3D sz = \<lparr> angleX = 0, angleY = 0, angleZ = 0, size = sz \<rparr>"

definition Rotate :: "Cube3D \<Rightarrow> real \<Rightarrow> real \<Rightarrow> real \<Rightarrow> Cube3D" where
  "Rotate c dx dy dz =
     c\<lparr>angleX := angleX c + dx, angleY := angleY c + dy, angleZ := angleZ c + dz\<rparr>"

subsection \<open>project3D\<close>

text \<open>
  A float64 division by zero does not trap: a nonzero number divided by zero is an
  infinity, and a finite \<open>x\<close> times an infinity is an infinity, or NaN when \<open>x\<close> is
  zero. \<open>coord\<close> adds these three values to the numbers; \<open>fdiv\<close> and \<open>fmul\<close> are the
  division and the product of \<open>project3D\<close> on it. The sum \<open>perspective + z\<close> of floats is
  zero exactly when \<open>z\<close> is \<open>-200\<close>, and then it is the positive zero.
\<close>

datatype coord = Num real | PosInf | NegInf | NotANumber

definition fdiv :: "real \<Rightarrow> real \<Rightarrow> coord" where
  "fdiv a b =
     (if b = 0 then (if 0 < a then PosInf else if a < 0 then NegInf else NotANumber)
      else Num (a / b))"

fun fmul :: "real \<Rightarrow> coord \<Rightarrow> coord" where
  "fmul a (Num b) = Num (a * b)"
| "fmul a PosInf = (if 0 < a then PosInf else if a < 0 then NegInf else NotANumber)"
| "fmul a NegInf = (if 0 < a then NegInf else if a < 0 then PosInf else NotANumber)"
| "fmul a NotANumber = NotANumber"

definition project3D :: "real \<Rightarrow> real \<Rightarrow> real \<Rightarrow> coord \<times> coord" where
  "project3D x y z =
     (let perspective = 200;
          factor = fdiv perspective (perspective + z)
      in (fmul x factor, fmul y factor))"

subsection \<open>Draw: the cube's data\<close>

type_synonym vec3 = "real \<times> real \<times> real"

definition vertices :: "Cube3D \<Rightarrow> vec3 list" where
  "vertices c =
     [ (- size c / 2, - size c / 2, - size c / 2),
       (size c / 2, - size c / 2, - size c / 2),
       (size c / 2, size c / 2, - size c / 2),
       (- size c / 2, size c / 2, - size c / 2),
       (- size c / 2, - size c / 2, size c / 2),
       (size c / 2, - size c / 2, size c / 2),
       (size c / 2, size c / 2, size c / 2),
       (- size c / 2, size c / 2, size c / 2) ]"

definition faces :: "nat list list" where
  "faces = [[0, 1, 2, 3], [4, 5, 6, 7], [0, 1, 5, 4], [2, 3, 7, 6], [0, 3, 7, 4], [1, 2, 6, 5]]"

datatype RGBA = RGBA (R: byte) (G: byte) (B: byte) (A: byte)

definition faceColors :: "RGBA list" where
  "faceColors =
     [ RGBA 255 80 160 255, RGBA 255 120 200 255, RGBA 200 60 140 255,
       RGBA 255 100 180 255, RGBA 220 80 160 255, RGBA 255 140 200 255 ]"

subsection \<open>Draw: rotation of the vertices\<close>

definition rotate_vertex :: "Cube3D \<Rightarrow> vec3 \<Rightarrow> vec3" where
  "rotate_vertex c v =
     (case v of (x, y, z) \<Rightarrow>
        let cosX = cos (angleX c); sinX = sin (angleX c);
            y1 = y * cosX - z * sinX;
            z1 = y * sinX + z * cosX;
            cosY = cos (angleY c); sinY = sin (angleY c);
            x1 = x * cosY + z1 * sinY;
            z2 = - x * sinY + z1 * cosY;
            cosZ = cos (angleZ c); sinZ = sin (angleZ c);
            x2 = x1 * cosZ - y1 * sinZ;
            y2 = x1 * sinZ + y1 * cosZ
        in (x2, y2, z2))"

definition rotated :: "Cube3D \<Rightarrow> vec3 list" where
  "rotated c = map (rotate_vertex c) (vertices c)"

subsection \<open>Draw: depth of the faces and the sort\<close>

record faceDepth =
  index :: nat
  depth :: real

definition centerZ_of :: "vec3 list \<Rightarrow> nat list \<Rightarrow> real" where
  "centerZ_of rot face = fold (\<lambda>vi centerZ. centerZ + snd (snd (rot ! vi))) face 0"

definition face_depths :: "vec3 list \<Rightarrow> nat list list \<Rightarrow> faceDepth list" where
  "face_depths rot fs =
     map (\<lambda>i. \<lparr> index = i, depth = centerZ_of rot (fs ! i) / 4 \<rparr>) [0 ..< length fs]"

text \<open>
  The two nested loops
  \<^verbatim>\<open>for i := 0; i < len(depths)-1; i++ { for j := i + 1; j < len(depths); j++ { ... } }\<close>,
  the body swapping \<open>depths[i]\<close> and \<open>depths[j]\<close> when the first is deeper.
\<close>

function sort_inner :: "nat \<Rightarrow> nat \<Rightarrow> faceDepth list \<Rightarrow> faceDepth list" where
  "sort_inner i j depths =
     (if j < length depths then
        sort_inner i (j + 1)
          (if depth (depths ! i) > depth (depths ! j)
           then depths[i := depths ! j, j := depths ! i]
           else depths)
      else depths)"
  by pat_completeness auto
termination
  by (relation "measure (\<lambda>(i, j, depths). length depths - j)") auto

declare sort_inner.simps [simp del]

lemma length_sort_inner [simp]: "length (sort_inner i j depths) = length depths"
proof (induction i j depths rule: sort_inner.induct)
  case (1 i j depths)
  show ?case
  proof (cases "j < length depths")
    case True
    then show ?thesis
      using "1.IH" by (subst sort_inner.simps) simp
  next
    case False
    then show ?thesis
      by (subst sort_inner.simps) simp
  qed
qed

function sort_outer :: "nat \<Rightarrow> faceDepth list \<Rightarrow> faceDepth list" where
  "sort_outer i depths =
     (if i + 1 < length depths then sort_outer (i + 1) (sort_inner i (i + 1) depths)
      else depths)"
  by pat_completeness auto
termination
  by (relation "measure (\<lambda>(i, depths). length depths - i)") auto

declare sort_outer.simps [simp del]

definition sort_depths :: "faceDepth list \<Rightarrow> faceDepth list" where
  "sort_depths depths = sort_outer 0 depths"

definition draw_order :: "Cube3D \<Rightarrow> faceDepth list" where
  "draw_order c = sort_depths (face_depths (rotated c) faces)"

subsection \<open>Draw: colour of the edges\<close>

text \<open>
  \<^verbatim>\<open>uint8(faceColor.(color.RGBA).R * 3 / 4)\<close>: \<open>R\<close> is a uint8, so the constants are
  uint8 and the product is a uint8 product.
\<close>

definition edgeChannel :: "byte \<Rightarrow> byte" where
  "edgeChannel ch = ch * 3 div 4"

definition edgeColor :: "RGBA \<Rightarrow> RGBA" where
  "edgeColor faceColor =
     RGBA (edgeChannel (R faceColor)) (edgeChannel (G faceColor)) (edgeChannel (B faceColor)) 255"

section \<open>Notions of the specification\<close>

subsection \<open>Seek\<close>

text \<open>
  The base of a seek, as a number: 0 from the start, the position from the current
  position, the total from the end. Clamping to the interval from 0 to the limit.
\<close>

definition seek_base :: "'d YMPlayer \<Rightarrow> int \<Rightarrow> int" where
  "seek_base y whence =
     (if whence = 0 then 0 else if whence = 1 then sint (position y) else sint (totalSamples y))"

definition clamp_position :: "int \<Rightarrow> int \<Rightarrow> int" where
  "clamp_position limit target = min limit (max 0 target)"

subsection \<open>Rotations\<close>

text \<open>
  The rotation of the plane by the angle \<open>a\<close>, and the three rotations of space that
  apply it to the coordinates (y, z), (z, x) and (x, y) and keep the third coordinate:
  the rotations about the X, Y and Z axes.
\<close>

definition rot2 :: "real \<Rightarrow> real \<times> real \<Rightarrow> real \<times> real" where
  "rot2 a pq = (case pq of (p, q) \<Rightarrow> (p * cos a - q * sin a, p * sin a + q * cos a))"

definition rot_x :: "real \<Rightarrow> vec3 \<Rightarrow> vec3" where
  "rot_x a v = (case v of (x, y, z) \<Rightarrow> case rot2 a (y, z) of (y', z') \<Rightarrow> (x, y', z'))"

definition rot_y :: "real \<Rightarrow> vec3 \<Rightarrow> vec3" where
  "rot_y a v = (case v of (x, y, z) \<Rightarrow> case rot2 a (z, x) of (z', x') \<Rightarrow> (x', y, z'))"

definition rot_z :: "real \<Rightarrow> vec3 \<Rightarrow> vec3" where
  "rot_z a v = (case v of (x, y, z) \<Rightarrow> case rot2 a (x, y) of (x', y') \<Rightarrow> (x', y', z))"

subsection \<open>The depth sort\<close>

text \<open>
  \<open>settled i ds\<close>: each of the first \<open>i\<close> entries of \<open>ds\<close> is at most as deep as every
  entry after it. It is what \<open>i\<close> rounds of the outer loop have achieved.
\<close>

definition settled :: "nat \<Rightarrow> faceDepth list \<Rightarrow> bool" where
  "settled i ds = (\<forall>a b. a < i \<and> a < b \<and> b < length ds \<longrightarrow> depth (ds ! a) \<le> depth (ds ! b))"

subsection \<open>The samples of one read\<close>

text \<open>
  The mono samples that the calls of \<open>Compute\<close> during one \<open>Read\<close> deliver, chunk after
  chunk: the decoder is asked for \<open>remaining\<close> samples, at most a buffer at a time, and
  the run stops at the call that reports the data exhausted when the stream does not
  loop. The samples of that last call are not delivered. (With an empty buffer the
  run is empty; the loop of \<open>Read\<close> does not end then.)
\<close>

function decode_run :: "'d stsound \<Rightarrow> bool \<Rightarrow> 'd \<Rightarrow> int16 list \<Rightarrow> nat \<Rightarrow> int16 list" where
  "decode_run S lp d buf remaining =
     (if remaining = 0 \<or> buf = [] then []
      else
        let n = min remaining (length buf) in
        case Compute S d (take n buf) n of
          (avail, chunk, d') \<Rightarrow>
            if \<not> avail \<and> \<not> lp then []
            else
              let buf' = write_back (take n buf) chunk @ drop n buf
              in take n buf' @ decode_run S lp d' buf' (remaining - n))"
  by pat_completeness auto
termination
  by (relation "measure (\<lambda>(S, lp, d, buf, remaining). remaining)") auto

declare decode_run.simps [simp del]

text \<open>Each sample twice: left and right.\<close>

definition stereo :: "'a list \<Rightarrow> 'a list" where
  "stereo xs = concat (map (\<lambda>s. [s, s]) xs)"

text \<open>
  Reading 16-bit little-endian PCM: the value of a low byte and a high byte, and the
  \<open>k\<close>-th stereo frame (left, right) of a byte string.
\<close>

definition int16_of_le :: "byte \<Rightarrow> byte \<Rightarrow> int16" where
  "int16_of_le lo hi = push_bit 8 (ucast hi) OR ucast lo"

definition frame_at :: "byte list \<Rightarrow> nat \<Rightarrow> int16 \<times> int16" where
  "frame_at bs k =
     (int16_of_le (bs ! (4 * k)) (bs ! (4 * k + 1)),
      int16_of_le (bs ! (4 * k + 2)) (bs ! (4 * k + 3)))"

text \<open>Discarding the fraction of a real number.\<close>

definition truncate_real :: "real \<Rightarrow> int" where
  "truncate_real x = (if 0 \<le> x then \<lfloor>x\<rfloor> else \<lceil>x\<rceil>)"

text \<open>An implementation whose out-of-range conversions give 0, for the examples.\<close>

definition oor_zero :: "f64 \<Rightarrow> int16" where
  "oor_zero x = 0"

subsection \<open>Sequences of calls\<close>

text \<open>\<open>n\<close> calls of \<open>Close\<close> in a row: the errors returned, the last state, every decoder destroyed.\<close>

primrec Close_times :: "nat \<Rightarrow> 'd YMPlayer \<Rightarrow> error option list \<times> 'd YMPlayer \<times> 'd list" where
  "Close_times 0 y = ([], y, [])"
| "Close_times (Suc n) y =
     (case Close y of (err, y1, ds1) \<Rightarrow>
        case Close_times n y1 of (errs, y2, ds2) \<Rightarrow> (err # errs, y2, ds1 @ ds2))"

subsection \<open>A decoder for the examples\<close>

text \<open>
  A deterministic decoder: its state is the list of samples still to play, one signed
  byte of the file each. \<open>Compute\<close> hands out the next \<open>n\<close> of them (silence once they
  run out) and reports whether any were left. It plays 1000 ms and rejects an empty
  file.
\<close>

definition stub :: "int16 list stsound" where
  "stub = \<lparr> CreateWithRate = (\<lambda>rate. []),
            LoadMemory = (\<lambda>d data. (if data = [] then Some ''no data'' else None, map scast data)),
            SetLoopMode = (\<lambda>d lp. d),
            MusicTimeInMs = (\<lambda>d. 1000),
            Compute = (\<lambda>d sl n. (d \<noteq> [], take n (d @ replicate n 0), drop n d)) \<rparr>"

text \<open>
  The adapter \<open>NewYMPlayer\<close> builds on this decoder from the file 100, 120, 251 at
  44100 Hz, without looping.
\<close>

definition player0 :: "int16 list YMPlayer" where
  "player0 = \<lparr> player = Some [100, 120, - 5], sampleRate = 44100, buffer = replicate 4096 0,
               position = 0, totalSamples = 44100, loop = False, volume = Finite 1 (- 1) \<rparr>"

section \<open>Properties\<close>

subsection \<open>Colour of the edges\<close>

lemma unat_edgeChannel: "unat (edgeChannel ch) = (unat ch * 3 mod 256) div 4"
  by (simp add: edgeChannel_def unat_div unat_word_ariths)

lemma edgeChannel_scales_iff:
  "unat (edgeChannel ch) = unat ch * 3 div 4 \<longleftrightarrow> unat ch \<le> 85"
proof (cases "unat ch \<le> 85")
  case True
  then have "unat ch * 3 mod 256 = unat ch * 3" by simp
  then show ?thesis using True by (simp add: unat_edgeChannel)
next
  case False
  define x where "x = unat ch * 3"
  have x: "256 \<le> x" using False by (simp add: x_def)
  have "x mod 256 \<le> x - 256"
    using x by (metis le_mod_geq mod_less_eq_dividend)
  then have "x mod 256 div 4 \<le> (x - 256) div 4"
    by (rule div_le_mono)
  also have "(x - 256) div 4 = x div 4 - 64"
    using x by simp
  also have "\<dots> < x div 4"
    using x by simp
  finally have "x mod 256 div 4 \<noteq> x div 4" by simp
  then show ?thesis using False by (simp add: unat_edgeChannel x_def)
qed

text \<open>
  C3. The edge colour of the first face, (255, 80, 160): the products 255 * 3 and
  160 * 3 wrap around at 256 before the division, so the red and blue channels are 63
  and 56, not the three quarters 191 and 120. A channel is scaled by 0.75 (rounded
  down) exactly when it is at most 85.
\<close>

theorem edgeColor_first_face:
  "edgeColor (faceColors ! 0) = RGBA 63 60 56 255 \<and>
   (unat (edgeChannel ch) = unat ch * 3 div 4 \<longleftrightarrow> unat ch \<le> 85)"
  using edgeChannel_scales_iff [of ch]
  by (simp add: edgeColor_def edgeChannel_def faceColors_def)

subsection \<open>Seek\<close>

lemma sint_add_no_overflow:
  "- (2 ^ 63) \<le> sint a + sint b \<Longrightarrow> sint a + sint b < 2 ^ 63
     \<Longrightarrow> sint (a + b :: int64) = sint a + sint b"
  by (simp add: sint_word_add signed_take_bit_int_eq_self)

text \<open>
  C6, as stated, fails when the sum overflows: from the end of a stream of 44100
  samples, the offset \<open>2 ^ 63 - 1\<close> gives a sum that wraps to a negative number and the
  position 0, where clamping the sum itself gives 44100.
\<close>

theorem Seek_overflow_counterexample:
  "Seek player0 0x7FFFFFFFFFFFFFFF 2 = (Inr 0, player0\<lparr>position := 0\<rparr>) \<and>
   clamp_position (sint (totalSamples player0))
     (seek_base player0 2 + sint (0x7FFFFFFFFFFFFFFF :: int64)) = 44100"
  by (simp add: Seek_def player0_def word_sless_alt clamp_position_def seek_base_def)

text \<open>
  C6, amended. An unrecognised mode returns the error and leaves the state as it was.
  For the three modes, when base + offset fits in 64 bits, the new position is that sum
  clamped to the interval from 0 to totalSamples; it is returned, and no other field
  changes.
\<close>

theorem Seek_clamps:
  "(whence \<noteq> 0 \<and> whence \<noteq> 1 \<and> whence \<noteq> 2 \<longrightarrow>
      Seek y offset whence = (Inl (InvalidWhence whence), y)) \<and>
   ((whence = 0 \<or> whence = 1 \<or> whence = 2) \<and>
    - (2 ^ 63) \<le> seek_base y whence + sint offset \<and>
    seek_base y whence + sint offset < 2 ^ 63 \<longrightarrow>
      (\<exists>p. Seek y offset whence = (Inr p, y\<lparr>position := p\<rparr>) \<and>
           sint p = clamp_position (sint (totalSamples y)) (seek_base y whence + sint offset)))"
proof (intro conjI impI)
  assume "whence \<noteq> 0 \<and> whence \<noteq> 1 \<and> whence \<noteq> 2"
  then show "Seek y offset whence = (Inl (InvalidWhence whence), y)"
    by (simp add: Seek_def)
next
  assume h: "(whence = 0 \<or> whence = 1 \<or> whence = 2) \<and>
    - (2 ^ 63) \<le> seek_base y whence + sint offset \<and>
    seek_base y whence + sint offset < 2 ^ 63"
  define base :: int64 where
    "base = (if whence = 0 then 0 else if whence = 1 then position y else totalSamples y)"
  have b: "sint base = seek_base y whence"
    using h by (auto simp: base_def seek_base_def)
  have s: "sint (base + offset) = seek_base y whence + sint offset"
    using h sint_add_no_overflow [of base offset] by (simp add: b)
  have n0: "(if whence = 0 then offset else if whence = 1 then position y + offset
             else totalSamples y + offset) = base + offset"
    using h by (auto simp: base_def)
  show "\<exists>p. Seek y offset whence = (Inr p, y\<lparr>position := p\<rparr>) \<and>
           sint p = clamp_position (sint (totalSamples y)) (seek_base y whence + sint offset)"
    using h s unfolding Seek_def n0
    by (auto simp: Let_def word_sless_alt clamp_position_def)
qed

theorem Seek_clamps_witness:
  "Seek player0 5 7 = (Inl (InvalidWhence 7), player0) \<and>
   (\<exists>p. Seek player0 (- 10) 2 = (Inr p, player0\<lparr>position := p\<rparr>) \<and> sint p = 44090)"
proof -
  have "Seek player0 5 7 = (Inl (InvalidWhence 7), player0)"
    using Seek_clamps [of 7 player0 5] by simp
  moreover have "\<exists>p. Seek player0 (- 10) 2 = (Inr p, player0\<lparr>position := p\<rparr>) \<and> sint p = 44090"
    using Seek_clamps [of 2 player0 "- 10"]
    by (simp add: seek_base_def clamp_position_def player0_def)
  ultimately show ?thesis by blast
qed

subsection \<open>Close\<close>

text \<open>
  C9. One call of \<open>Close\<close> or more: every call returns no error, the state is the
  first state with the handle set to nil, and the decoders destroyed are the one the
  first state held, if it held one. So a sequence of calls destroys at most once, and a
  call on a closed adapter changes nothing and destroys nothing.
\<close>

theorem Close_idempotent:
  "Close_times (Suc n) y =
     (replicate (Suc n) None, y\<lparr>player := None\<rparr>,
      case player y of Some d \<Rightarrow> [d] | None \<Rightarrow> []) \<and>
   length (snd (snd (Close_times (Suc n) y))) \<le> 1 \<and>
   Close (fst (snd (Close y))) = (None, fst (snd (Close y)), [])"
proof -
  have run: "Close_times (Suc k) z =
     (replicate (Suc k) None, z\<lparr>player := None\<rparr>,
      case player z of Some d \<Rightarrow> [d] | None \<Rightarrow> [])" for k and z :: "'a YMPlayer"
  proof (induction k arbitrary: z)
    case 0
    show ?case by (cases "player z") (simp_all add: Close_def)
  next
    case (Suc k)
    have "Close_times (Suc (Suc k)) z =
            (case Close z of (err, y1, ds1) \<Rightarrow>
               case Close_times (Suc k) y1 of (errs, y2, ds2) \<Rightarrow> (err # errs, y2, ds1 @ ds2))"
      by simp
    then show ?case
      unfolding Suc.IH by (cases "player z") (simp_all add: Close_def)
  qed
  have once: "length (snd (snd (Close_times (Suc n) y))) \<le> 1"
    unfolding run by (cases "player y") simp_all
  have again: "Close (fst (snd (Close y))) = (None, fst (snd (Close y)), [])"
    by (cases "player y") (simp_all add: Close_def)
  from run once again show ?thesis by blast
qed

subsection \<open>Projection\<close>

text \<open>
  C5, as stated, fails: there is no guard. At \<open>z = -200\<close> the division by zero is
  carried out, and the point (1, 1, -200) is projected to infinite coordinates.
\<close>

theorem project3D_divides_by_zero: "project3D 1 1 (- 200) = (PosInf, PosInf)"
  by (simp add: project3D_def fdiv_def)

text \<open>
  C5, amended. Whenever \<open>200 + z\<close> is not zero, the projection is \<open>x * factor\<close> and
  \<open>y * factor\<close> with \<open>factor = 200 / (200 + z)\<close>. At \<open>z = -200\<close> nothing guards the
  division: the factor is the positive infinity and the two results are its products
  with \<open>x\<close> and \<open>y\<close> (an infinity, or NaN for a zero coordinate).
\<close>

theorem project3D_formula:
  "(z \<noteq> - 200 \<longrightarrow>
      project3D x y z = (Num (x * (200 / (200 + z))), Num (y * (200 / (200 + z))))) \<and>
   (z = - 200 \<longrightarrow> project3D x y z = (fmul x PosInf, fmul y PosInf))"
  by (auto simp add: project3D_def fdiv_def Let_def)

theorem project3D_formula_witness:
  "project3D 10 (- 10) 200 = (Num 5, Num (- 5)) \<and>
   project3D 10 0 (- 200) = (PosInf, NotANumber)"
proof -
  have "project3D 10 (- 10) 200 = (Num 5, Num (- 5))"
    using project3D_formula [of 200 10 "- 10"] by simp
  moreover have "project3D 10 0 (- 200) = (PosInf, NotANumber)"
    using project3D_formula [of "- 200" 10 0] by simp
  ultimately show ?thesis by blast
qed

subsection \<open>Rotation\<close>

text \<open>
  C8. The rotation of a vertex in \<open>Draw\<close> is the rotation about X by angleX, then the
  rotation about Y by angleY, then the rotation about Z by angleZ, each the rotation of
  a plane by that angle. With the three angles 0 it returns the vertex, so the
  vertices of a new cube are not moved.
\<close>

theorem rotate_vertex_X_then_Y_then_Z:
  "rotate_vertex c v = rot_z (angleZ c) (rot_y (angleY c) (rot_x (angleX c) v)) \<and>
   rotate_vertex (c\<lparr>angleX := 0, angleY := 0, angleZ := 0\<rparr>) v = v \<and>
   rotated (NewCube3D sz) = vertices (NewCube3D sz)"
proof -
  obtain x y z where v: "v = (x, y, z)" by (cases v) auto
  have a: "rotate_vertex c v = rot_z (angleZ c) (rot_y (angleY c) (rot_x (angleX c) v))"
    by (simp add: v rotate_vertex_def rot_x_def rot_y_def rot_z_def rot2_def Let_def algebra_simps)
  have b: "rotate_vertex (c\<lparr>angleX := 0, angleY := 0, angleZ := 0\<rparr>) w = w" for w
    by (cases w) (simp add: rotate_vertex_def)
  have "rotate_vertex (NewCube3D sz) w = w" for w
    by (cases w) (simp add: rotate_vertex_def NewCube3D_def)
  then have c: "rotated (NewCube3D sz) = vertices (NewCube3D sz)"
    by (auto simp: rotated_def intro: map_idI)
  from a b c show ?thesis by blast
qed

subsection \<open>The depth sort\<close>

lemma sort_inner_unfold_swap:
  "j < length ds \<Longrightarrow> depth (ds ! i) > depth (ds ! j) \<Longrightarrow>
     sort_inner i j ds = sort_inner i (j + 1) (ds[i := ds ! j, j := ds ! i])"
  by (subst sort_inner.simps) simp

lemma sort_inner_unfold_keep:
  "j < length ds \<Longrightarrow> \<not> depth (ds ! i) > depth (ds ! j) \<Longrightarrow>
     sort_inner i j ds = sort_inner i (j + 1) ds"
  by (subst sort_inner.simps) simp

lemma sort_inner_unfold_done: "\<not> j < length ds \<Longrightarrow> sort_inner i j ds = ds"
  by (subst sort_inner.simps) simp

lemma mset_sort_inner: "i < j \<Longrightarrow> mset (sort_inner i j ds) = mset ds"
proof (induction i j ds rule: sort_inner.induct)
  case (1 i j ds)
  show ?case
  proof (cases "j < length ds")
    case False
    then show ?thesis by (simp add: sort_inner_unfold_done)
  next
    case True
    show ?thesis
    proof (cases "depth (ds ! i) > depth (ds ! j)")
      case sw: True
      have "mset (sort_inner i (j + 1) (ds[i := ds ! j, j := ds ! i])) = mset (ds[i := ds ! j, j := ds ! i])"
        using "1.IH" True sw "1.prems" by simp
      also have "\<dots> = mset ds"
        using True "1.prems" by (simp add: mset_swap)
      finally show ?thesis using True sw by (simp add: sort_inner_unfold_swap)
    next
      case ke: False
      then show ?thesis using "1.IH" True "1.prems" by (simp add: sort_inner_unfold_keep)
    qed
  qed
qed

text \<open>Below \<open>i\<close> nothing moves.\<close>

lemma sort_inner_prefix: "i < j \<Longrightarrow> k < i \<Longrightarrow> sort_inner i j ds ! k = ds ! k"
proof (induction i j ds rule: sort_inner.induct)
  case (1 i j ds)
  show ?case
  proof (cases "j < length ds")
    case False
    then show ?thesis by (simp add: sort_inner_unfold_done)
  next
    case True
    show ?thesis
    proof (cases "depth (ds ! i) > depth (ds ! j)")
      case sw: True
      have "sort_inner i (j + 1) (ds[i := ds ! j, j := ds ! i]) ! k = (ds[i := ds ! j, j := ds ! i]) ! k"
        using "1.IH" True sw "1.prems" by simp
      then show ?thesis using True sw "1.prems" by (simp add: sort_inner_unfold_swap)
    next
      case ke: False
      then show ?thesis using "1.IH" True "1.prems" by (simp add: sort_inner_unfold_keep)
    qed
  qed
qed

text \<open>A lower bound on the entries from \<open>i\<close> on is kept.\<close>

lemma sort_inner_bound:
  "i < j \<Longrightarrow> \<forall>k. i \<le> k \<and> k < length ds \<longrightarrow> c \<le> depth (ds ! k)
     \<Longrightarrow> i \<le> k \<Longrightarrow> k < length ds \<Longrightarrow> c \<le> depth (sort_inner i j ds ! k)"
proof (induction i j ds rule: sort_inner.induct)
  case (1 i j ds)
  show ?case
  proof (cases "j < length ds")
    case False
    then show ?thesis using "1.prems" by (simp add: sort_inner_unfold_done)
  next
    case True
    let ?ds = "if depth (ds ! i) > depth (ds ! j) then ds[i := ds ! j, j := ds ! i] else ds"
    have step: "sort_inner i j ds = sort_inner i (j + 1) ?ds"
      using True by (subst sort_inner.simps) simp
    have b: "\<forall>k. i \<le> k \<and> k < length ?ds \<longrightarrow> c \<le> depth (?ds ! k)"
      using "1.prems" True by (auto simp: nth_list_update)
    have "c \<le> depth (sort_inner i (j + 1) ?ds ! k)"
      using "1.prems" by (intro "1.IH" [OF True _ b]) auto
    then show ?thesis by (simp only: step)
  qed
qed

text \<open>After the inner loop, position \<open>i\<close> holds a least entry of the rest.\<close>

lemma sort_inner_min:
  "i < j \<Longrightarrow> \<forall>k. i < k \<and> k < j \<and> k < length ds \<longrightarrow> depth (ds ! i) \<le> depth (ds ! k)
     \<Longrightarrow> i < k \<Longrightarrow> k < length ds \<Longrightarrow> depth (sort_inner i j ds ! i) \<le> depth (sort_inner i j ds ! k)"
proof (induction i j ds rule: sort_inner.induct)
  case (1 i j ds)
  show ?case
  proof (cases "j < length ds")
    case False
    then show ?thesis using "1.prems" by (simp add: sort_inner_unfold_done)
  next
    case True
    let ?ds = "if depth (ds ! i) > depth (ds ! j) then ds[i := ds ! j, j := ds ! i] else ds"
    have step: "sort_inner i j ds = sort_inner i (j + 1) ?ds"
      using True by (subst sort_inner.simps) simp
    have b: "\<forall>k. i < k \<and> k < j + 1 \<and> k < length ?ds \<longrightarrow> depth (?ds ! i) \<le> depth (?ds ! k)"
      using "1.prems"(1,2) True by (auto simp: nth_list_update less_Suc_eq)
    have "depth (sort_inner i (j + 1) ?ds ! i) \<le> depth (sort_inner i (j + 1) ?ds ! k)"
      using "1.prems" by (intro "1.IH" [OF True _ b]) auto
    then show ?thesis by (simp only: step)
  qed
qed

lemma settled_step:
  assumes "settled i ds" "i + 1 < length ds"
  shows "settled (i + 1) (sort_inner i (i + 1) ds)"
  unfolding settled_def
proof (intro allI impI)
  fix a b
  let ?r = "sort_inner i (i + 1) ds"
  assume h: "a < i + 1 \<and> a < b \<and> b < length ?r"
  show "depth (?r ! a) \<le> depth (?r ! b)"
  proof (cases "a < i")
    case True
    have ra: "?r ! a = ds ! a" using True by (simp add: sort_inner_prefix)
    show ?thesis
    proof (cases "b < i")
      case b: True
      then have "?r ! b = ds ! b" by (simp add: sort_inner_prefix)
      then show ?thesis using ra assms(1) True h by (simp add: settled_def)
    next
      case b: False
      have "\<forall>k. i \<le> k \<and> k < length ds \<longrightarrow> depth (ds ! a) \<le> depth (ds ! k)"
        using assms(1) True by (auto simp: settled_def)
      then have "depth (ds ! a) \<le> depth (?r ! b)"
        using sort_inner_bound [of i "i + 1" ds "depth (ds ! a)" b] b h by simp
      then show ?thesis using ra by simp
    qed
  next
    case False
    then have "a = i" using h by simp
    then show ?thesis
      using sort_inner_min [of i "i + 1" ds b] h by simp
  qed
qed

lemma sort_outer_settled:
  "settled i ds \<Longrightarrow> settled (length ds) (sort_outer i ds)"
proof (induction i ds rule: sort_outer.induct)
  case (1 i ds)
  show ?case
  proof (cases "i + 1 < length ds")
    case True
    then have "settled (length (sort_inner i (i + 1) ds)) (sort_outer (i + 1) (sort_inner i (i + 1) ds))"
      using "1.IH" settled_step [OF "1.prems"] by simp
    then show ?thesis using True by (subst sort_outer.simps) simp
  next
    case False
    have "settled (length ds) ds"
      unfolding settled_def
    proof (intro allI impI)
      fix a b assume "a < length ds \<and> a < b \<and> b < length ds"
      then have "a < i" using False by simp
      then show "depth (ds ! a) \<le> depth (ds ! b)"
        using "1.prems" \<open>a < length ds \<and> a < b \<and> b < length ds\<close> by (simp add: settled_def)
    qed
    then show ?thesis using False by (subst sort_outer.simps) simp
  qed
qed

lemma length_sort_outer [simp]: "length (sort_outer i ds) = length ds"
  by (induction i ds rule: sort_outer.induct) (subst sort_outer.simps, simp)

lemma mset_sort_outer: "mset (sort_outer i ds) = mset ds"
  by (induction i ds rule: sort_outer.induct) (subst sort_outer.simps, simp add: mset_sort_inner)

lemma sorted_sort_depths: "sorted (map depth (sort_depths ds))"
proof -
  have "settled 0 ds" by (simp add: settled_def)
  then have "settled (length ds) (sort_outer 0 ds)" by (rule sort_outer_settled)
  then show ?thesis
    by (auto simp: sort_depths_def settled_def sorted_iff_nth_mono_less)
qed

lemma fold_add_sum_list:
  "fold (\<lambda>x acc. acc + g x) xs (a :: real) = a + sum_list (map g xs)"
  by (induction xs arbitrary: a) simp_all

text \<open>
  C4, as stated, fails on ties. With the depths -2, 2, 0, 0, 1, -1 the faces 2 and 3
  are tied, and the sort puts face 3 before face 2.
\<close>

theorem sort_depths_tie_counterexample:
  "map index (sort_depths
     [\<lparr>index = 0, depth = - 2\<rparr>, \<lparr>index = 1, depth = 2\<rparr>, \<lparr>index = 2, depth = 0\<rparr>,
      \<lparr>index = 3, depth = 0\<rparr>, \<lparr>index = 4, depth = 1\<rparr>, \<lparr>index = 5, depth = - 1\<rparr>])
   = [0, 5, 3, 2, 4, 1]"
  by (simp add: sort_depths_def sort_outer.simps sort_inner.simps)

text \<open>
  C4, amended. The depth of a face is the sum of the rotated z coordinates of its
  vertices, divided by 4. The sort returns the entries it was given, in non-decreasing
  order of depth. The faces of a new cube of positive size come out in the order
  0, 2, 3, 4, 5, 1. Nothing is claimed about the order of faces of equal depth.
\<close>

theorem sort_depths_sorted:
  "(i < length fs \<longrightarrow>
      face_depths rot fs ! i =
        \<lparr> index = i, depth = sum_list (map (\<lambda>vi. snd (snd (rot ! vi))) (fs ! i)) / 4 \<rparr>) \<and>
   sorted (map depth (sort_depths ds)) \<and>
   mset (sort_depths ds) = mset ds \<and>
   (0 < sz \<longrightarrow> map index (draw_order (NewCube3D sz)) = [0, 2, 3, 4, 5, 1])"
proof (intro conjI impI)
  assume "i < length fs"
  then show "face_depths rot fs ! i =
        \<lparr> index = i, depth = sum_list (map (\<lambda>vi. snd (snd (rot ! vi))) (fs ! i)) / 4 \<rparr>"
    by (simp add: face_depths_def centerZ_of_def fold_add_sum_list)
next
  show "sorted (map depth (sort_depths ds))"
    by (rule sorted_sort_depths)
next
  show "mset (sort_depths ds) = mset ds"
    by (simp add: sort_depths_def mset_sort_outer)
next
  assume "0 < sz"
  then have "sort_depths (face_depths (rotated (NewCube3D sz)) faces) =
      [\<lparr>index = 0, depth = - sz / 2\<rparr>, \<lparr>index = 2, depth = 0\<rparr>, \<lparr>index = 3, depth = 0\<rparr>,
       \<lparr>index = 4, depth = 0\<rparr>, \<lparr>index = 5, depth = 0\<rparr>, \<lparr>index = 1, depth = sz / 2\<rparr>]"
    by (simp add: rotated_def vertices_def rotate_vertex_def NewCube3D_def faces_def
          face_depths_def centerZ_of_def upt_rec [of _ "numeral _"] sort_depths_def
          sort_outer.simps sort_inner.simps)
  then show "map index (draw_order (NewCube3D sz)) = [0, 2, 3, 4, 5, 1]"
    by (simp add: draw_order_def)
qed

theorem sort_depths_sorted_witness:
  "face_depths (rotated (NewCube3D 20)) faces ! 1 = \<lparr> index = 1, depth = 10 \<rparr> \<and>
   map index (draw_order (NewCube3D 20)) = [0, 2, 3, 4, 5, 1]"
proof -
  have "face_depths (rotated (NewCube3D 20)) faces ! 1 = \<lparr> index = 1, depth = 10 \<rparr>"
    using sort_depths_sorted [of 1 faces "rotated (NewCube3D 20)" "[]" 20]
    by (simp add: faces_def rotated_def vertices_def rotate_vertex_def NewCube3D_def)
  moreover have "map index (draw_order (NewCube3D 20)) = [0, 2, 3, 4, 5, 1]"
    using sort_depths_sorted [of 1 faces "rotated (NewCube3D 20)" "[]" 20] by simp
  ultimately show ?thesis by blast
qed

subsection \<open>float64 and int16\<close>

lemma int16_of_le_roundtrip: "int16_of_le (ucast v) (ucast (signed_drop_bit 8 v)) = v"
  unfolding int16_of_le_def
  by (rule bit_word_eqI) (auto simp: bit_simps)

lemma rne_0 [simp]: "rne m 0 = m"
  by (simp add: rne_def)

lemma rne_zero [simp]: "rne 0 sh = 0"
  by (simp add: rne_def)

lemma round53_exact:
  "bitlen \<bar>m\<bar> \<le> 53 \<Longrightarrow> - 1074 \<le> e \<Longrightarrow> bitlen \<bar>m\<bar> + e \<le> 1024 \<Longrightarrow> round53 m e = Finite m e"
  by (simp add: round53_def Let_def max_def)

lemma bitlen_sint16: "bitlen \<bar>sint (s :: int16)\<bar> \<le> 16"
proof -
  have "- (2 ^ 15) \<le> sint s" "sint s < 2 ^ 15"
    using sint_ge [of s] sint_lt [of s] by simp_all
  then have "\<bar>sint s\<bar> < 2 ^ nat 16" by simp
  then show ?thesis by (simp add: bitlen_le_iff_power)
qed

lemma scale_zero: "scale_sample K (Finite 0 e) s = 0"
  by (simp add: scale_sample_def f64_of_int16_def round53_def Let_def f64_trunc_def)

lemma scale_one: "scale_sample K (Finite 1 0) s = s"
proof -
  have "round53 (sint s) 0 = Finite (sint s) 0"
    using bitlen_sint16 [of s] by (intro round53_exact) simp_all
  moreover have "- 32768 \<le> sint s" "sint s \<le> 32767"
    using sint_ge [of s] sint_lt [of s] by simp_all
  ultimately show ?thesis
    by (simp add: scale_sample_def f64_of_int16_def f64_trunc_def)
qed

lemma scale_half: "scale_sample K (Finite 1 (- 1)) s = word_of_int (sint s sdiv 2)"
proof -
  have "round53 (sint s) (- 1) = Finite (sint s) (- 1)"
    using bitlen_sint16 [of s] by (intro round53_exact) simp_all
  moreover have "- 32768 \<le> sint s" "sint s \<le> 32767"
    using sint_ge [of s] sint_lt [of s] by simp_all
  then have "- 32768 \<le> sgn (sint s) * (\<bar>sint s\<bar> div 2)" "sgn (sint s) * (\<bar>sint s\<bar> div 2) \<le> 32767"
    by (auto simp: sgn_if)
  ultimately show ?thesis
    by (simp add: scale_sample_def f64_of_int16_def f64_trunc_def signed_divide_int_def)
qed

lemma f64_trunc_eq: "f64_trunc m e = truncate_real (of_int m * 2 powi e)"
proof (cases "0 \<le> e")
  case True
  then have eq: "(of_int m :: real) * 2 powi e = of_int (m * 2 ^ nat e)"
    by (simp add: power_int_def)
  show ?thesis
    unfolding truncate_real_def f64_trunc_def eq floor_of_int ceiling_of_int
    using True by simp
next
  case False
  define k where "k = nat (- e)"
  have x: "(of_int m :: real) * 2 powi e = of_int m / of_int (2 ^ k)"
    using False by (simp add: power_int_def k_def field_simps)
  show ?thesis
  proof (cases "0 \<le> m")
    case True
    then have "0 \<le> (of_int m :: real) / of_int (2 ^ k)" by simp
    moreover have "\<lfloor>(of_int m :: real) / of_int (2 ^ k)\<rfloor> = m div 2 ^ k"
      by (rule floor_divide_of_int_eq)
    ultimately show ?thesis using False True
      by (simp add: x truncate_real_def f64_trunc_def k_def sgn_if)
  next
    case neg: False
    then have "(of_int m :: real) / of_int (2 ^ k) < 0"
      by (simp add: divide_neg_pos)
    moreover have "\<lceil>(of_int m :: real) / of_int (2 ^ k)\<rceil> = - \<lfloor>of_int (- m) / (of_int (2 ^ k) :: real)\<rfloor>"
      by (simp add: ceiling_def)
    moreover have "\<lfloor>of_int (- m) / (of_int (2 ^ k) :: real)\<rfloor> = (- m) div 2 ^ k"
      by (rule floor_divide_of_int_eq)
    ultimately show ?thesis using False neg
      by (simp add: x truncate_real_def f64_trunc_def k_def sgn_if)
  qed
qed

lemma scale_sample_truncates:
  assumes "f64_mul (f64_of_int16 s) v = Finite m e"
    and "- 32768 \<le> truncate_real (of_int m * 2 powi e)"
    and "truncate_real (of_int m * 2 powi e) \<le> 32767"
  shows "sint (scale_sample K v s) = truncate_real (of_int m * 2 powi e)"
proof -
  have "scale_sample K v s = word_of_int (f64_trunc m e)"
    using assms by (simp add: scale_sample_def f64_trunc_eq)
  moreover have "sint (word_of_int (f64_trunc m e) :: int16) = f64_trunc m e"
    using assms(2,3) by (simp add: f64_trunc_eq sint_sbintrunc' signed_take_bit_int_eq_self)
  ultimately show ?thesis by (simp add: f64_trunc_eq)
qed

text \<open>A volume from 0 to 1: the product is finite and its integer part fits int16.\<close>

lemma rne_between:
  assumes "a * 2 ^ sh \<le> P" "P \<le> b * 2 ^ sh"
  shows "a \<le> rne P sh \<and> rne P sh \<le> b"
proof -
  define q where "q = P div 2 ^ sh"
  define r where "r = P mod 2 ^ sh"
  have pos: "(0::int) < 2 ^ sh" by simp
  have r0: "0 \<le> r" unfolding r_def using pos by (rule pos_mod_sign)
  have pqr: "P = q * 2 ^ sh + r"
    unfolding q_def r_def by (rule div_mult_mod_eq [symmetric])
  have "a * 2 ^ sh div 2 ^ sh \<le> P div 2 ^ sh"
    using assms(1) pos by (rule zdiv_mono1)
  then have qa: "a \<le> q"
    by (simp add: q_def)
  have rq: "rne P sh = q \<or> rne P sh = q + 1"
    by (simp add: rne_def q_def Let_def)
  have up: "rne P sh \<le> b"
  proof (cases "P = b * 2 ^ sh")
    case True
    then have "q = b" "r = 0" by (simp_all add: q_def r_def)
    then show ?thesis by (simp add: rne_def Let_def q_def [symmetric] r_def [symmetric])
  next
    case False
    then have "q * 2 ^ sh < b * 2 ^ sh" using assms(2) pqr r0 by linarith
    then have "q < b" using pos by (simp only: mult_less_cancel_right_pos)
    then show ?thesis using rq by auto
  qed
  from qa rq up show ?thesis by auto
qed


lemma f64_trunc_nonpos_exp:
  "e \<le> 0 \<Longrightarrow> f64_trunc m e = sgn m * (\<bar>m\<bar> div 2 ^ nat (- e))"
  by (cases "e = 0") (simp_all add: f64_trunc_def sgn_if)

lemma bitlen_abs_le:
  assumes "\<bar>x\<bar> \<le> 2 ^ 15 * 2 ^ n"
  shows "bitlen \<bar>x\<bar> \<le> 16 + int n"
proof -
  have "(2::int) ^ 15 * 2 ^ n < 2 ^ (16 + n)" by (simp add: power_add)
  then have "\<bar>x\<bar> < 2 ^ nat (16 + int n)"
    using assms by (simp add: nat_add_distrib)
  then show ?thesis by (simp add: bitlen_le_iff_power)
qed

lemma unit_volume_exponent:
  assumes "1 \<le> m" "of_int m * 2 powi e \<le> (1::real)"
  shows "e \<le> 0 \<and> m \<le> 2 ^ nat (- e)"
proof -
  have e: "e \<le> 0"
  proof (rule ccontr)
    assume "\<not> e \<le> 0"
    then have "0 < e" by simp
    then have "(2::real) \<le> 2 powi e"
      using self_le_power [of "2::real" "nat e"] by (simp add: power_int_def)
    moreover have "(1::real) \<le> of_int m" using assms(1) by simp
    ultimately have "(2::real) \<le> of_int m * 2 powi e"
      using mult_mono [of "1::real" "of_int m" 2 "2 powi e"] by simp
    then show False using assms(2) by simp
  qed
  then have pe: "(2::real) powi e = 1 / 2 ^ nat (- e)"
    by (cases "e = 0") (simp_all add: power_int_def field_simps)
  have "of_int m / (2::real) ^ nat (- e) \<le> 1"
    using assms(2) unfolding pe by simp
  then have "(of_int m :: real) \<le> 2 ^ nat (- e)"
    by (simp add: divide_le_eq)
  then have "(of_int m :: real) \<le> of_int (2 ^ nat (- e))" by simp
  then have "m \<le> 2 ^ nat (- e)" by (simp only: of_int_le_iff)
  with e show ?thesis by simp
qed

lemma unit_volume_product:
  assumes m: "0 \<le> m" and v: "of_int m * 2 powi e \<le> (1::real)"
  shows "\<exists>m' e'. f64_mul (f64_of_int16 s) (Finite m e) = Finite m' e' \<and>
           - 32768 \<le> f64_trunc m' e' \<and> f64_trunc m' e' \<le> 32767"
proof (cases "m = 0")
  case True
  then show ?thesis
    by (simp add: f64_of_int16_def round53_def Let_def f64_trunc_def)
next
  case False
  then have m1: "1 \<le> m" using m by simp
  define n where "n = nat (- e)"
  have e0: "e \<le> 0" and mn: "m \<le> 2 ^ n"
    using unit_volume_exponent [OF m1 v] by (simp_all add: n_def)
  define S where "S = sint s"
  have Sb: "- 32768 \<le> S" "S \<le> 32767"
    using sint_ge [of s] sint_lt [of s] by (simp_all add: S_def)
  define P where "P = S * m"
  have absP: "\<bar>P\<bar> \<le> 2 ^ 15 * 2 ^ n"
  proof -
    have "\<bar>P\<bar> = \<bar>S\<bar> * m" using m by (simp add: P_def abs_mult)
    also have "\<dots> \<le> 2 ^ 15 * 2 ^ n"
      using Sb mn m by (intro mult_mono) auto
    finally show ?thesis .
  qed
  define sh where "sh = nat (max (bitlen \<bar>P\<bar> - 53) (- 1074 - e))"
  define m' where "m' = rne P sh"
  define e' where "e' = e + int sh"
  have shn: "sh \<le> n"
    using bitlen_abs_le [OF absP] e0 by (simp add: sh_def n_def)
  define n' where "n' = n - sh"
  have nn: "n = n' + sh" using shn by (simp add: n'_def)
  have e'n: "e' = - int n'" "e' \<le> 0" "nat (- e') = n'"
    using shn e0 by (simp_all add: e'_def n'_def n_def)
  define k where "k = S * 2 ^ n'"
  have k2: "k * 2 ^ sh = S * 2 ^ n" by (simp add: k_def nn power_add)
  have b1: "0 \<le> m' \<and> m' \<le> k" if s0: "0 \<le> S"
  proof -
    have "0 * 2 ^ sh \<le> P" using s0 m by (simp add: P_def)
    moreover have "P \<le> k * 2 ^ sh"
      unfolding k2 P_def using mn s0 by (rule mult_left_mono)
    ultimately show ?thesis
      unfolding m'_def by (rule rne_between)
  qed
  have b2: "k \<le> m' \<and> m' \<le> 0" if s0: "S \<le> 0"
  proof -
    have "P \<le> 0 * 2 ^ sh" using s0 m by (simp add: P_def mult_nonpos_nonneg)
    moreover have "k * 2 ^ sh \<le> P"
      unfolding k2 P_def using mn s0 by (rule mult_left_mono_neg)
    ultimately show ?thesis
      unfolding m'_def using rne_between by blast
  qed
  have between: "(0 \<le> S \<longrightarrow> 0 \<le> m' \<and> m' \<le> k) \<and> (S \<le> 0 \<longrightarrow> k \<le> m' \<and> m' \<le> 0)"
    using b1 b2 by blast
  have absm: "\<bar>m'\<bar> \<le> \<bar>S\<bar> * 2 ^ n'"
    using between by (cases "0 \<le> S") (auto simp: k_def abs_mult)
  have "\<bar>m'\<bar> \<le> 2 ^ 15 * 2 ^ n'"
  proof -
    have "\<bar>S\<bar> * 2 ^ n' \<le> 2 ^ 15 * (2 ^ n' :: int)"
      using Sb by (intro mult_right_mono) auto
    with absm show ?thesis by linarith
  qed
  then have "bitlen \<bar>m'\<bar> \<le> 16 + int n'" by (rule bitlen_abs_le)
  then have noov: "\<not> (m' \<noteq> 0 \<and> 1024 < bitlen \<bar>m'\<bar> + e')"
    using e'n(1) by simp
  have prod: "f64_mul (f64_of_int16 s) (Finite m e) = Finite m' e'"
    using noov
    by (simp add: f64_of_int16_def round53_def Let_def S_def [symmetric] P_def [symmetric]
          sh_def [symmetric] m'_def [symmetric] e'_def [symmetric])
  have tr: "f64_trunc m' e' = sgn m' * (\<bar>m'\<bar> div 2 ^ n')"
    using f64_trunc_nonpos_exp [OF e'n(2), of m'] by (simp add: e'n(3))
  have dv: "\<bar>m'\<bar> div 2 ^ n' \<le> \<bar>S\<bar>"
  proof -
    have "\<bar>m'\<bar> div 2 ^ n' \<le> (\<bar>S\<bar> * 2 ^ n') div 2 ^ n'"
      using absm by (intro zdiv_mono1) simp_all
    then show ?thesis by simp
  qed
  have d0: "0 \<le> \<bar>m'\<bar> div 2 ^ n'"
    by (simp add: pos_imp_zdiv_nonneg_iff)
  have "- 32768 \<le> f64_trunc m' e' \<and> f64_trunc m' e' \<le> 32767"
  proof (cases "0 \<le> S")
    case True
    then have "0 \<le> m'" using between by simp
    then show ?thesis
      unfolding tr using dv d0 True Sb by (auto simp: sgn_if)
  next
    case False
    then have "m' \<le> 0" using between by simp
    then show ?thesis
      unfolding tr using dv d0 False Sb by (auto simp: sgn_if)
  qed
  with prod show ?thesis by blast
qed

subsection \<open>The loops of Read\<close>

lemma length_write_back [simp]: "length (write_back old new) = length old"
  by (simp add: write_back_def)

lemma stereo_Nil [simp]: "stereo [] = []"
  by (simp add: stereo_def)

lemma length_stereo [simp]: "length (stereo xs) = 2 * length xs"
  by (induction xs) (simp_all add: stereo_def)

lemma nth_stereo: "k < 2 * length xs \<Longrightarrow> stereo xs ! k = xs ! (k div 2)"
proof (induction xs arbitrary: k)
  case Nil
  then show ?case by simp
next
  case (Cons x xs)
  have s: "stereo (x # xs) = x # x # stereo xs" by (simp add: stereo_def)
  show ?case
  proof (cases "k < 2")
    case True
    then have "k = 0 \<or> k = 1" by arith
    then show ?thesis by (auto simp: s)
  next
    case False
    then obtain m where m: "k = Suc (Suc m)" by (metis Suc_lessI less_2_cases_iff not0_implies_Suc not_less_eq)
    then have "m < 2 * length xs" using Cons.prems by simp
    then have "stereo xs ! m = xs ! (m div 2)" by (rule Cons.IH)
    then show ?thesis by (simp add: s m)
  qed
qed

lemma length_zero_fold [simp]:
  "length (fold (\<lambda>i out. out[i := (0::int16)]) is out) = length out"
  by (induction "is" arbitrary: out) simp_all

lemma nth_zero_fold:
  "k < length out \<Longrightarrow>
     fold (\<lambda>i out. out[i := (0::int16)]) is out ! k = (if k \<in> set is then 0 else out ! k)"
  by (induction "is" arbitrary: out) (auto simp: nth_list_update)

lemma zero_tail_eq:
  "zero_tail processed out = take (processed * 2) out @ replicate (length out - processed * 2) 0"
  by (rule nth_equalityI) (auto simp: zero_tail_def nth_zero_fold nth_append)


lemma length_emit_chunk [simp]:
  "length (emit_chunk K vol buf processed n out) = length out"
  unfolding emit_chunk_def
  by (induction n) (simp_all add: Let_def)

lemma emit_chunk_Suc:
  "emit_chunk K vol buf processed (Suc n) out =
     (emit_chunk K vol buf processed n out)
       [(processed + n) * 2 := scale_sample K vol (buf ! n),
        (processed + n) * 2 + 1 := scale_sample K vol (buf ! n)]"
  by (simp add: emit_chunk_def Let_def)

lemma nth_emit_chunk:
  "k < length out \<Longrightarrow>
     emit_chunk K vol buf processed n out ! k =
       (if processed * 2 \<le> k \<and> k < (processed + n) * 2
        then scale_sample K vol (buf ! ((k - processed * 2) div 2)) else out ! k)"
proof (induction n)
  case 0
  then show ?case by (auto simp add: emit_chunk_def)
next
  case (Suc n)
  have d1: "((processed + n) * 2 - processed * 2) div 2 = n" by simp
  have d2: "((processed + n) * 2 + 1 - processed * 2) div 2 = n" by simp
  consider "k = (processed + n) * 2" | "k = (processed + n) * 2 + 1"
    | "k < (processed + n) * 2" | "(processed + n) * 2 + 1 < k" by linarith
  then show ?case
  proof cases
    case 1
    then show ?thesis using Suc.prems by (simp add: emit_chunk_Suc nth_list_update d1)
  next
    case 2
    then show ?thesis using Suc.prems by (simp add: emit_chunk_Suc nth_list_update d2)
  next
    case 3
    then show ?thesis using Suc by (simp add: emit_chunk_Suc nth_list_update)
  next
    case 4
    then show ?thesis using Suc by (simp add: emit_chunk_Suc nth_list_update)
  qed
qed

lemma emit_chunk_eq:
  assumes "(processed + n) * 2 \<le> length out" "n \<le> length buf"
  shows "emit_chunk K vol buf processed n out =
           take (processed * 2) out @ stereo (map (scale_sample K vol) (take n buf))
             @ drop ((processed + n) * 2) out"
proof (rule nth_equalityI)
  show "length (emit_chunk K vol buf processed n out) =
          length (take (processed * 2) out @ stereo (map (scale_sample K vol) (take n buf))
             @ drop ((processed + n) * 2) out)"
    using assms by simp
next
  fix k assume "k < length (emit_chunk K vol buf processed n out)"
  then have k: "k < length out" by simp
  consider "k < processed * 2" | "processed * 2 \<le> k \<and> k < (processed + n) * 2"
    | "(processed + n) * 2 \<le> k" by linarith
  then show "emit_chunk K vol buf processed n out ! k =
          (take (processed * 2) out @ stereo (map (scale_sample K vol) (take n buf))
             @ drop ((processed + n) * 2) out) ! k"
  proof cases
    case 1
    then show ?thesis using k assms by (simp add: nth_emit_chunk nth_append)
  next
    case 2
    then have a: "k - processed * 2 < 2 * n" by (auto simp: algebra_simps)
    then have b: "(k - processed * 2) div 2 < n" by auto
    show ?thesis using k assms 2 a b
      by (simp add: nth_emit_chunk nth_append nth_stereo)
  next
    case 3
    then have e: "k - processed * 2 - 2 * n + (processed + n) * 2 = k" by simp
    have f: "\<not> k < processed * 2" "\<not> k - processed * 2 < 2 * n"
      using 3 by (auto simp: algebra_simps)
    show ?thesis using k assms 3 e f
      by (simp add: nth_emit_chunk nth_append)
  qed
qed


lemma length_decode_run_le: "length (decode_run S lp d buf remaining) \<le> remaining"
proof (induction S lp d buf remaining rule: decode_run.induct)
  case (1 S lp d buf remaining)
  show ?case
  proof (cases "remaining = 0 \<or> buf = []")
    case True
    then show ?thesis by (subst decode_run.simps) simp
  next
    case False
    define n where "n = min remaining (length buf)"
    obtain avail chunk d' where c: "Compute S d (take n buf) n = (avail, chunk, d')"
      by (cases "Compute S d (take n buf) n") auto
    show ?thesis
    proof (cases "\<not> avail \<and> \<not> lp")
      case True
      then show ?thesis using False c
        by (subst decode_run.simps) (simp add: n_def [symmetric] Let_def)
    next
      case nb: False
      define buf' where "buf' = write_back (take n buf) chunk @ drop n buf"
      have "length (decode_run S lp d' buf' (remaining - n)) \<le> remaining - n"
        using "1.IH" [OF False n_def, of avail "(chunk, d')" chunk d' buf'] c nb buf'_def
        by simp
      moreover have "n \<le> remaining" by (simp add: n_def)
      moreover have "decode_run S lp d buf remaining = take n buf' @ decode_run S lp d' buf' (remaining - n)"
        using False c nb
        by (subst decode_run.simps) (auto simp add: n_def [symmetric] Let_def buf'_def)
      ultimately show ?thesis by simp
    qed
  qed
qed

lemma Read_loop_result:
  assumes "buffer y \<noteq> []" "player y = Some d" "processed \<le> N" "length out = N * 2"
  shows "\<exists>y' err.
     Read_loop S K N y out processed =
       Some (Inr (y',
         take (processed * 2) out
           @ stereo (map (scale_sample K (volume y))
                      (decode_run S (loop y) d (buffer y) (N - processed)))
           @ replicate ((N - processed
                          - length (decode_run S (loop y) d (buffer y) (N - processed))) * 2) 0,
         err)) \<and>
     position y' = position y
        + word_of_nat (length (decode_run S (loop y) d (buffer y) (N - processed))) \<and>
     err = (if length (decode_run S (loop y) d (buffer y) (N - processed)) < N - processed
            then Some EOF else None) \<and>
     y' = y\<lparr>player := player y', buffer := buffer y', position := position y'\<rparr> \<and>
     player y' \<noteq> None \<and> length (buffer y') = length (buffer y)"
  using assms
proof (induction "N - processed" arbitrary: y d out processed rule: less_induct)
  case less
  show ?case
  proof (cases "processed < N")
    case False
    then have e: "N - processed = 0" "processed = N" using less.prems by simp_all
    have r: "Read_loop S K N y out processed = Some (Inr (y, out, None))"
      using False by (subst Read_loop.simps) simp
    have dr: "decode_run S (loop y) d (buffer y) 0 = []"
      by (subst decode_run.simps) simp
    show ?thesis
      unfolding e(1) dr r using less.prems by (simp add: e(2))
  next
    case True
    define n where "n = min (N - processed) (length (buffer y))"
    have n: "0 < n" "n \<le> N - processed" "n \<le> length (buffer y)"
      using True less.prems(1) by (simp_all add: n_def)
    obtain avail chunk d' where c: "Compute S d (take n (buffer y)) n = (avail, chunk, d')"
      by (cases "Compute S d (take n (buffer y)) n") auto
    define buf' where "buf' = write_back (take n (buffer y)) chunk @ drop n (buffer y)"
    define y1 where "y1 = y\<lparr>player := Some d', buffer := buf'\<rparr>"
    have lb: "length buf' = length (buffer y)"
      using n by (simp add: buf'_def)
    show ?thesis
    proof (cases "\<not> avail \<and> \<not> loop y")
      case stop: True
      have r: "Read_loop S K N y out processed
                 = Some (Inr (y1, zero_tail processed out, Some EOF))"
        using True stop c less.prems(2)
        by (subst Read_loop.simps)
           (simp add: n_def [symmetric] Let_def y1_def buf'_def)
      have dr: "decode_run S (loop y) d (buffer y) (N - processed) = []"
        using True stop c less.prems(1)
        by (subst decode_run.simps) (simp add: n_def [symmetric] Let_def)
      show ?thesis
        unfolding dr r using True less.prems lb
        by (simp add: zero_tail_eq stereo_def y1_def diff_mult_distrib)
    next
      case go: False
      define y2 where "y2 = y1\<lparr>position := position y1 + word_of_nat n\<rparr>"
      define out1 where "out1 = emit_chunk K (volume y1) (buffer y1) processed n out"
      have r: "Read_loop S K N y out processed = Read_loop S K N y2 out1 (processed + n)"
        using True go c less.prems(2)
        by (subst Read_loop.simps)
           (auto simp add: n_def [symmetric] Let_def y1_def y2_def out1_def buf'_def)
      have dr: "decode_run S (loop y) d (buffer y) (N - processed)
                  = take n buf' @ decode_run S (loop y) d' buf' (N - processed - n)"
        using True go c less.prems(1)
        by (subst decode_run.simps) (auto simp add: n_def [symmetric] Let_def buf'_def)
      have o1: "out1 = take (processed * 2) out
                  @ stereo (map (scale_sample K (volume y)) (take n buf'))
                  @ drop ((processed + n) * 2) out"
        unfolding out1_def using n less.prems lb
        by (subst emit_chunk_eq) (simp_all add: y1_def)
      have p2: "buffer y2 \<noteq> []" "player y2 = Some d'" "processed + n \<le> N" "length out1 = N * 2"
        using n less.prems lb by (auto simp: y2_def y1_def out1_def)
      have m: "N - (processed + n) < N - processed" using n True by simp
      obtain y' err where ih:
        "Read_loop S K N y2 out1 (processed + n) =
           Some (Inr (y',
             take ((processed + n) * 2) out1
               @ stereo (map (scale_sample K (volume y2))
                          (decode_run S (loop y2) d' (buffer y2) (N - (processed + n))))
               @ replicate ((N - (processed + n)
                     - length (decode_run S (loop y2) d' (buffer y2) (N - (processed + n)))) * 2) 0,
             err))"
        "position y' = position y2
            + word_of_nat (length (decode_run S (loop y2) d' (buffer y2) (N - (processed + n))))"
        "err = (if length (decode_run S (loop y2) d' (buffer y2) (N - (processed + n)))
                     < N - (processed + n)
                then Some EOF else None)"
        "y' = y2\<lparr>player := player y', buffer := buffer y', position := position y'\<rparr>"
        "player y' \<noteq> None" "length (buffer y') = length (buffer y2)"
        using less.hyps [OF m p2] by blast
      define rest where "rest = decode_run S (loop y) d' buf' (N - processed - n)"
      have f2: "loop y2 = loop y" "volume y2 = volume y" "buffer y2 = buf'"
        "position y2 = position y + word_of_nat n"
        by (simp_all add: y2_def y1_def)
      have sub: "N - (processed + n) = N - processed - n" by simp
      have ln: "length (take n buf') = n" using n lb by simp
      have tk: "take ((processed + n) * 2) out1 =
          take (processed * 2) out @ stereo (map (scale_sample K (volume y)) (take n buf'))"
        unfolding o1 using less.prems n ln by (simp add: add_mult_distrib)
      have st: "stereo (xs @ ys) = stereo xs @ stereo ys" for xs ys :: "int16 list"
        by (simp add: stereo_def)
      have lr: "length rest \<le> N - processed - n"
        unfolding rest_def by (rule length_decode_run_le)
      have a1: "Read_loop S K N y out processed =
         Some (Inr (y',
           take (processed * 2) out
             @ stereo (map (scale_sample K (volume y)) (take n buf' @ rest))
             @ replicate ((N - processed - length (take n buf' @ rest)) * 2) 0,
           err))"
        unfolding r ih(1) f2 sub tk rest_def [symmetric]
        using ln by (simp add: st)
      have a2: "position y' = position y + word_of_nat (length (take n buf' @ rest))"
        unfolding ih(2) f2 sub rest_def [symmetric] using ln by simp
      have a3: "err = (if length (take n buf' @ rest) < N - processed then Some EOF else None)"
        unfolding ih(3) f2 sub rest_def [symmetric] using ln n lr by auto
      have a4: "y' = y\<lparr>player := player y', buffer := buffer y', position := position y'\<rparr>"
        using ih(4) by (simp add: y2_def y1_def)
      have a5: "length (buffer y') = length (buffer y)"
        using ih(6) lb by (simp add: f2)
      show ?thesis
        unfolding dr rest_def [symmetric]
        using a1 a2 a3 a4 a5 ih(5) by blast
    qed
  qed
qed

lemma serialize_append [simp]: "serialize (xs @ ys) = serialize xs @ serialize ys"
  by (simp add: serialize_def)

lemma length_serialize [simp]: "length (serialize xs) = 2 * length xs"
  by (induction xs) (simp_all add: serialize_def)

lemma serialize_zeros [simp]: "serialize (replicate k 0) = replicate (2 * k) 0"
  by (induction k) (simp_all add: serialize_def)

lemma serialize_stereo_Cons:
  "serialize (stereo (x # xs)) =
     ucast x # ucast (signed_drop_bit 8 x) # ucast x # ucast (signed_drop_bit 8 x)
       # serialize (stereo xs)"
  by (simp add: serialize_def stereo_def)

lemma frame_at_Suc: "frame_at (a # b # c # d # bs) (Suc k) = frame_at bs k"
  by (simp add: frame_at_def add.commute)

lemma frame_at_serialize:
  "k < length xs \<Longrightarrow> frame_at (serialize (stereo xs) @ rest) k = (xs ! k, xs ! k)"
proof (induction xs arbitrary: k)
  case Nil
  then show ?case by simp
next
  case (Cons x xs)
  show ?case
  proof (cases k)
    case 0
    then show ?thesis
      by (simp add: serialize_stereo_Cons frame_at_def int16_of_le_roundtrip)
  next
    case (Suc j)
    then have "j < length xs" using Cons.prems by simp
    then have "frame_at (serialize (stereo xs) @ rest) j = (xs ! j, xs ! j)"
      by (rule Cons.IH)
    then show ?thesis
      by (simp add: Suc serialize_stereo_Cons frame_at_Suc)
  qed
qed

lemma Read_result:
  assumes "buffer y \<noteq> []" "player y = Some d"
  shows "\<exists>y' err.
     Read S K y p =
       Some (Inr (y',
         serialize (stereo (map (scale_sample K (volume y))
                     (decode_run S (loop y) d (buffer y) (length p div 4))))
           @ replicate ((length p div 4
                          - length (decode_run S (loop y) d (buffer y) (length p div 4))) * 4) 0
           @ drop (length p div 4 * 4) p,
         length p div 4 * 4, err)) \<and>
     position y' = position y
        + word_of_nat (length (decode_run S (loop y) d (buffer y) (length p div 4))) \<and>
     err = (if length (decode_run S (loop y) d (buffer y) (length p div 4)) < length p div 4
            then Some EOF else None) \<and>
     y' = y\<lparr>player := player y', buffer := buffer y', position := position y'\<rparr> \<and>
     player y' \<noteq> None \<and> length (buffer y') = length (buffer y)"
proof -
  define N where "N = length p div 4"
  define ss where "ss = decode_run S (loop y) d (buffer y) N"
  have ls: "length ss \<le> N"
    unfolding ss_def by (rule length_decode_run_le)
  have n4: "N * 4 \<le> length p" by (simp add: N_def)
  obtain y' err where r:
    "Read_loop S K N y (replicate (N * 2) 0) 0 =
       Some (Inr (y',
         take (0 * 2) (replicate (N * 2) 0)
           @ stereo (map (scale_sample K (volume y)) (decode_run S (loop y) d (buffer y) (N - 0)))
           @ replicate ((N - 0 - length (decode_run S (loop y) d (buffer y) (N - 0))) * 2) 0,
         err))"
    "position y' = position y
        + word_of_nat (length (decode_run S (loop y) d (buffer y) (N - 0)))"
    "err = (if length (decode_run S (loop y) d (buffer y) (N - 0)) < N - 0
            then Some EOF else None)"
    "y' = y\<lparr>player := player y', buffer := buffer y', position := position y'\<rparr>"
    "player y' \<noteq> None" "length (buffer y') = length (buffer y)"
    using Read_loop_result [OF assms, of 0 N "replicate (N * 2) 0" S K] by auto
  have r1: "Read_loop S K N y (replicate (N * 2) 0) 0 =
       Some (Inr (y', stereo (map (scale_sample K (volume y)) ss)
                       @ replicate ((N - length ss) * 2) 0, err))"
    using r(1) by (simp add: ss_def)
  have "Read S K y p =
       Some (Inr (y',
         serialize (stereo (map (scale_sample K (volume y)) ss))
           @ replicate ((N - length ss) * 4) 0 @ drop (N * 4) p,
         N * 4, err))"
    unfolding Read_def N_def [symmetric] Let_def r1
    using ls n4 by (simp add: algebra_simps)
  moreover have "position y' = position y + word_of_nat (length ss)"
    using r(2) by (simp add: ss_def)
  moreover have "err = (if length ss < N then Some EOF else None)"
    using r(3) by (simp add: ss_def)
  ultimately show ?thesis
    unfolding N_def [symmetric] ss_def [symmetric] using r(4-6) by blast
qed

lemma stereo_replicate [simp]: "stereo (replicate k x) = replicate (2 * k) x"
  by (induction k) (simp_all add: stereo_def)

lemma stereo_Cons [simp]: "stereo (x # xs) = x # x # stereo xs"
  by (simp add: stereo_def)

lemma serialize_Cons [simp]:
  "serialize (x # xs) = ucast x # ucast (signed_drop_bit 8 x) # serialize xs"
  by (simp add: serialize_def)

lemma serialize_Nil [simp]: "serialize [] = []"
  by (simp add: serialize_def)

lemma NewYMPlayer_stub: "NewYMPlayer stub [100, 120, 251] 44100 False = (Inr player0, [])"
  by (simp add: NewYMPlayer_def stub_def player0_def signed_divide_int_def)

lemma ucast_minus_1_byte: "(ucast (- 1 :: int16) :: byte) = 255"
proof -
  have "(- 1 :: int16) = 65535" by simp
  then show ?thesis by (simp only: ) simp
qed

lemma int16_of_le_zero [simp]: "int16_of_le 0 0 = 0"
  by (simp add: int16_of_le_def)

lemma scale_half_val:
  "sint (scale_sample K (Finite 1 (- 1)) s) = truncate_real (real_of_int (sint s) * (1 / 2))"
proof -
  have p: "f64_mul (f64_of_int16 s) (Finite 1 (- 1)) = Finite (sint s) (- 1)"
    using bitlen_sint16 [of s] round53_exact [of "sint s" "- 1"]
    by (simp add: f64_of_int16_def)
  have b: "- 32768 \<le> sint s" "sint s \<le> 32767"
    using sint_ge [of s] sint_lt [of s] by simp_all
  have t: "truncate_real (of_int (sint s) * 2 powi (- 1)) = sgn (sint s) * (\<bar>sint s\<bar> div 2)"
    unfolding f64_trunc_eq [symmetric] by (simp add: f64_trunc_def)
  have r: "- 32768 \<le> truncate_real (of_int (sint s) * 2 powi (- 1))"
    "truncate_real (of_int (sint s) * 2 powi (- 1)) \<le> 32767"
    unfolding t using b by (auto simp: sgn_if)
  have "sint (scale_sample K (Finite 1 (- 1)) s) = truncate_real (of_int (sint s) * 2 powi (- 1))"
    using p r by (rule scale_sample_truncates)
  then show ?thesis by (simp add: power_int_minus)
qed

lemma Read_frames:
  assumes "buffer y \<noteq> []" "player y = Some d"
  shows "\<exists>y' p' err.
     Read S K y p = Some (Inr (y', p', length p div 4 * 4, err)) \<and>
     length p' = length p \<and>
     (\<forall>k. k < length (decode_run S (loop y) d (buffer y) (length p div 4)) \<longrightarrow>
          frame_at p' k =
            (scale_sample K (volume y) (decode_run S (loop y) d (buffer y) (length p div 4) ! k),
             scale_sample K (volume y) (decode_run S (loop y) d (buffer y) (length p div 4) ! k))) \<and>
     (\<forall>i. length (decode_run S (loop y) d (buffer y) (length p div 4)) * 4 \<le> i \<and>
          i < length p div 4 * 4 \<longrightarrow> p' ! i = 0) \<and>
     position y' = position y
        + word_of_nat (length (decode_run S (loop y) d (buffer y) (length p div 4))) \<and>
     err = (if length (decode_run S (loop y) d (buffer y) (length p div 4)) < length p div 4
            then Some EOF else None) \<and>
     y' = y\<lparr>player := player y', buffer := buffer y', position := position y'\<rparr>"
proof -
  define N where "N = length p div 4"
  define ss where "ss = decode_run S (loop y) d (buffer y) N"
  define A where "A = serialize (stereo (map (scale_sample K (volume y)) ss))"
  define p' where "p' = A @ replicate ((N - length ss) * 4) 0 @ drop (N * 4) p"
  have ls: "length ss \<le> N"
    unfolding ss_def by (rule length_decode_run_le)
  have n4: "N * 4 \<le> length p" by (simp add: N_def)
  have la: "length A = length ss * 4" by (simp add: A_def)
  obtain y' err where r:
    "Read S K y p = Some (Inr (y', p', N * 4, err))"
    "position y' = position y + word_of_nat (length ss)"
    "err = (if length ss < N then Some EOF else None)"
    "y' = y\<lparr>player := player y', buffer := buffer y', position := position y'\<rparr>"
    using Read_result [OF assms, of S K p]
    unfolding N_def [symmetric] ss_def [symmetric] A_def [symmetric] p'_def [symmetric]
    by blast
  have lp: "length p' = length p"
    using ls n4 la by (simp add: p'_def diff_mult_distrib)
  have fr: "frame_at p' k = (scale_sample K (volume y) (ss ! k), scale_sample K (volume y) (ss ! k))"
    if "k < length ss" for k
    using that frame_at_serialize [of k "map (scale_sample K (volume y)) ss"]
    by (simp add: p'_def A_def)
  have z: "p' ! i = 0" if "length ss * 4 \<le> i \<and> i < N * 4" for i
  proof -
    have "i - length A < (N - length ss) * 4"
      using that la ls by (auto simp add: diff_mult_distrib)
    then show ?thesis
      using that la by (simp add: p'_def nth_append)
  qed
  show ?thesis
    unfolding N_def [symmetric] ss_def [symmetric]
    using r lp fr z by blast
qed

subsection \<open>Read: the position\<close>

text \<open>
  C1, as stated, fails: the position does not count the silent tail. The decoder of
  \<open>player0\<close> has three samples left. A read of 4097 frames fills one buffer of 4096
  samples, the second call of \<open>Compute\<close> reports the data exhausted, and the read
  returns EOF with the position at 4096, not 4097. The bytes after the three samples
  are zero.
\<close>

theorem Read_exhausted_counterexample:
  "Read stub oor_zero player0 (replicate 16388 0) =
     Some (Inr (player0\<lparr>player := Some [], buffer := 0 # 120 # - 5 # replicate 4093 0,
                       position := 4096\<rparr>,
                [50, 0, 50, 0, 60, 0, 60, 0, 254, 255, 254, 255] @ replicate 16376 0,
                16388, Some EOF))"
  by (simp add: Read_def Read_loop.simps emit_chunk_eq zero_tail_eq stub_def player0_def
        write_back_def Let_def scale_zero scale_half signed_divide_int_def
        replicate_add [symmetric] ucast_minus_1_byte)

text \<open>
  C1, amended. A read on an adapter that is not closed returns, and delivers
  \<open>frameCount = len(p) / 4\<close> frames. Let \<open>k\<close> be the number of samples decoded before the
  call of \<open>Compute\<close> that reported the data exhausted (all \<open>frameCount\<close> of them when
  no call did). The position advances by \<open>k\<close>, the output bytes from \<open>4 * k\<close> on are
  zero, and the read returns EOF exactly when \<open>k\<close> is less than \<open>frameCount\<close>: the
  silent tail is not counted in the position.
\<close>

theorem Read_position_counts_decoded:
  "buffer y \<noteq> [] \<and> player y = Some d \<longrightarrow>
     (\<exists>y' p' err.
        Read S K y p = Some (Inr (y', p', length p div 4 * 4, err)) \<and>
        position y' = position y
          + word_of_nat (length (decode_run S (loop y) d (buffer y) (length p div 4))) \<and>
        (\<forall>i. length (decode_run S (loop y) d (buffer y) (length p div 4)) * 4 \<le> i \<and>
             i < length p div 4 * 4 \<longrightarrow> p' ! i = 0) \<and>
        length (decode_run S (loop y) d (buffer y) (length p div 4)) \<le> length p div 4 \<and>
        (err = Some EOF \<longleftrightarrow>
           length (decode_run S (loop y) d (buffer y) (length p div 4)) < length p div 4) \<and>
        (err = None \<longleftrightarrow>
           length (decode_run S (loop y) d (buffer y) (length p div 4)) = length p div 4))"
proof
  assume a: "buffer y \<noteq> [] \<and> player y = Some d"
  have le: "length (decode_run S (loop y) d (buffer y) (length p div 4)) \<le> length p div 4"
    by (rule length_decode_run_le)
  from a Read_frames [of y d S K p] obtain y' p' err where r:
    "Read S K y p = Some (Inr (y', p', length p div 4 * 4, err))"
    "\<forall>i. length (decode_run S (loop y) d (buffer y) (length p div 4)) * 4 \<le> i \<and>
          i < length p div 4 * 4 \<longrightarrow> p' ! i = 0"
    "position y' = position y
        + word_of_nat (length (decode_run S (loop y) d (buffer y) (length p div 4)))"
    "err = (if length (decode_run S (loop y) d (buffer y) (length p div 4)) < length p div 4
            then Some EOF else None)"
    by blast
  have "err = Some EOF \<longleftrightarrow>
           length (decode_run S (loop y) d (buffer y) (length p div 4)) < length p div 4"
    using r(4) by simp
  moreover have "err = None \<longleftrightarrow>
           length (decode_run S (loop y) d (buffer y) (length p div 4)) = length p div 4"
    using r(4) le by auto
  ultimately show "\<exists>y' p' err.
        Read S K y p = Some (Inr (y', p', length p div 4 * 4, err)) \<and>
        position y' = position y
          + word_of_nat (length (decode_run S (loop y) d (buffer y) (length p div 4))) \<and>
        (\<forall>i. length (decode_run S (loop y) d (buffer y) (length p div 4)) * 4 \<le> i \<and>
             i < length p div 4 * 4 \<longrightarrow> p' ! i = 0) \<and>
        length (decode_run S (loop y) d (buffer y) (length p div 4)) \<le> length p div 4 \<and>
        (err = Some EOF \<longleftrightarrow>
           length (decode_run S (loop y) d (buffer y) (length p div 4)) < length p div 4) \<and>
        (err = None \<longleftrightarrow>
           length (decode_run S (loop y) d (buffer y) (length p div 4)) = length p div 4)"
    using r(1,2,3) le by blast
qed

lemma decode_run_player0:
  "decode_run stub False [100, 120, - 5] (replicate 4096 0) 4097 = 100 # 120 # - 5 # replicate 4093 0"
  by (simp add: decode_run.simps stub_def write_back_def Let_def)

theorem Read_position_counts_decoded_witness:
  "\<exists>y' p'. Read stub oor_zero player0 (replicate 16388 0) = Some (Inr (y', p', 16388, Some EOF)) \<and>
      position y' = 4096 \<and> p' ! 16387 = 0"
proof -
  have h: "buffer player0 \<noteq> [] \<and> player player0 = Some [100, 120, - 5]"
    by (simp add: player0_def)
  have f: "loop player0 = False" "buffer player0 = replicate 4096 0" "position player0 = 0"
    by (simp_all add: player0_def)
  show ?thesis
    using Read_position_counts_decoded [of player0 "[100, 120, - 5]" stub oor_zero "replicate 16388 0"] h
    unfolding f by (auto simp add: decode_run_player0)
qed

subsection \<open>Read: the samples\<close>

text \<open>
  C7. A read on an adapter that is not closed returns \<open>len(p) / 4\<close> frames of 4 bytes.
  Read as little-endian 16-bit PCM, the \<open>k\<close>-th frame holds, left and right, the
  \<open>k\<close>-th decoded sample scaled by the volume. With the volume 0 every frame is (0, 0);
  with the volume 1 the frames hold the decoded samples themselves. The scaled sample
  is the float64 product of the sample and the volume with its fraction discarded,
  whenever that integer fits in 16 bits; for a volume from 0 to 1 it always does.
\<close>

theorem Read_output_samples:
  "(buffer y \<noteq> [] \<and> player y = Some d \<longrightarrow>
      (\<exists>y' p' err.
         Read S K y p = Some (Inr (y', p', length p div 4 * 4, err)) \<and>
         length p' = length p \<and>
         (\<forall>k. k < length (decode_run S (loop y) d (buffer y) (length p div 4)) \<longrightarrow>
              frame_at p' k =
                (scale_sample K (volume y) (decode_run S (loop y) d (buffer y) (length p div 4) ! k),
                 scale_sample K (volume y) (decode_run S (loop y) d (buffer y) (length p div 4) ! k))) \<and>
         (\<forall>e. volume y = Finite 0 e \<longrightarrow>
              (\<forall>k. k < length p div 4 \<longrightarrow> frame_at p' k = (0, 0))) \<and>
         (volume y = Finite 1 0 \<longrightarrow>
              (\<forall>k. k < length (decode_run S (loop y) d (buffer y) (length p div 4)) \<longrightarrow>
                   frame_at p' k =
                     (decode_run S (loop y) d (buffer y) (length p div 4) ! k,
                      decode_run S (loop y) d (buffer y) (length p div 4) ! k))))) \<and>
   (f64_mul (f64_of_int16 s) v = Finite m e \<and>
    - 32768 \<le> truncate_real (of_int m * 2 powi e) \<and>
    truncate_real (of_int m * 2 powi e) \<le> 32767 \<longrightarrow>
      sint (scale_sample K v s) = truncate_real (of_int m * 2 powi e)) \<and>
   (0 \<le> vm \<and> of_int vm * 2 powi ve \<le> (1::real) \<longrightarrow>
      (\<exists>m' e'. f64_mul (f64_of_int16 s) (Finite vm ve) = Finite m' e' \<and>
         sint (scale_sample K (Finite vm ve) s) = truncate_real (of_int m' * 2 powi e')))"
proof (intro conjI impI)
  assume a: "buffer y \<noteq> [] \<and> player y = Some d"
  define ss where "ss = decode_run S (loop y) d (buffer y) (length p div 4)"
  from a Read_frames [of y d S K p] obtain y' p' err where r:
    "Read S K y p = Some (Inr (y', p', length p div 4 * 4, err))"
    "length p' = length p"
    "\<forall>k. k < length ss \<longrightarrow>
          frame_at p' k = (scale_sample K (volume y) (ss ! k), scale_sample K (volume y) (ss ! k))"
    "\<forall>i. length ss * 4 \<le> i \<and> i < length p div 4 * 4 \<longrightarrow> p' ! i = 0"
    unfolding ss_def by blast
  have zero: "frame_at p' k = (0, 0)" if v: "volume y = Finite 0 e0" and k: "k < length p div 4"
    for e0 k
  proof (cases "k < length ss")
    case True
    then show ?thesis using r(3) v by (simp add: scale_zero)
  next
    case False
    then have "p' ! (4 * k) = 0" "p' ! (4 * k + 1) = 0" "p' ! (4 * k + 2) = 0" "p' ! (4 * k + 3) = 0"
      using r(4) k by simp_all
    then show ?thesis by (simp add: frame_at_def)
  qed
  have one: "frame_at p' k = (ss ! k, ss ! k)" if "volume y = Finite 1 0" "k < length ss" for k
    using that r(3) by (simp add: scale_one)
  show "\<exists>y' p' err.
         Read S K y p = Some (Inr (y', p', length p div 4 * 4, err)) \<and>
         length p' = length p \<and>
         (\<forall>k. k < length (decode_run S (loop y) d (buffer y) (length p div 4)) \<longrightarrow>
              frame_at p' k =
                (scale_sample K (volume y) (decode_run S (loop y) d (buffer y) (length p div 4) ! k),
                 scale_sample K (volume y) (decode_run S (loop y) d (buffer y) (length p div 4) ! k))) \<and>
         (\<forall>e. volume y = Finite 0 e \<longrightarrow>
              (\<forall>k. k < length p div 4 \<longrightarrow> frame_at p' k = (0, 0))) \<and>
         (volume y = Finite 1 0 \<longrightarrow>
              (\<forall>k. k < length (decode_run S (loop y) d (buffer y) (length p div 4)) \<longrightarrow>
                   frame_at p' k =
                     (decode_run S (loop y) d (buffer y) (length p div 4) ! k,
                      decode_run S (loop y) d (buffer y) (length p div 4) ! k)))"
    unfolding ss_def [symmetric] using r(1,2,3) zero one by blast
next
  assume "f64_mul (f64_of_int16 s) v = Finite m e \<and>
    - 32768 \<le> truncate_real (of_int m * 2 powi e) \<and>
    truncate_real (of_int m * 2 powi e) \<le> 32767"
  then show "sint (scale_sample K v s) = truncate_real (of_int m * 2 powi e)"
    by (intro scale_sample_truncates) simp_all
next
  assume "0 \<le> vm \<and> of_int vm * 2 powi ve \<le> (1::real)"
  then obtain m' e' where u:
    "f64_mul (f64_of_int16 s) (Finite vm ve) = Finite m' e'"
    "- 32768 \<le> f64_trunc m' e'" "f64_trunc m' e' \<le> 32767"
    using unit_volume_product [of vm ve s] by blast
  have "sint (scale_sample K (Finite vm ve) s) = truncate_real (of_int m' * 2 powi e')"
    using u by (intro scale_sample_truncates) (simp_all add: f64_trunc_eq)
  with u(1) show "\<exists>m' e'. f64_mul (f64_of_int16 s) (Finite vm ve) = Finite m' e' \<and>
         sint (scale_sample K (Finite vm ve) s) = truncate_real (of_int m' * 2 powi e')"
    by blast
qed

lemma decode_run_player0_4:
  "decode_run stub False [100, 120, - 5] (replicate 4096 0) 4 = [100, 120, - 5, 0]"
  by (simp add: decode_run.simps stub_def write_back_def Let_def)

theorem Read_output_samples_witness:
  "(\<exists>y' p' err. Read stub oor_zero player0 (replicate 16 0) = Some (Inr (y', p', 16, err)) \<and>
       frame_at p' 2 = (- 2, - 2)) \<and>
   (\<exists>y' p' err. Read stub oor_zero (SetVolume player0 (Finite 0 0)) (replicate 16 0)
         = Some (Inr (y', p', 16, err)) \<and> frame_at p' 2 = (0, 0)) \<and>
   (\<exists>y' p' err. Read stub oor_zero (SetVolume player0 (Finite 1 0)) (replicate 16 0)
         = Some (Inr (y', p', 16, err)) \<and> frame_at p' 2 = (- 5, - 5)) \<and>
   sint (scale_sample oor_zero (Finite 3 (- 2)) (- 5)) = - 3 \<and>
   sint (scale_sample oor_zero (Finite 5404319552844595 (- 54)) 100) = 30"
proof -
  have f: "loop player0 = False" "buffer player0 = replicate 4096 0"
    "player player0 = Some [100, 120, - 5]" "volume player0 = Finite 1 (- 1)"
    by (simp_all add: player0_def)
  have sc: "scale_sample oor_zero (Finite 1 (- 1)) (- 5) = - 2"
    by (simp add: scale_half signed_divide_int_def)
  have w1: "\<exists>y' p' err. Read stub oor_zero player0 (replicate 16 0) = Some (Inr (y', p', 16, err)) \<and>
       frame_at p' 2 = (- 2, - 2)"
    using Read_output_samples [of player0 "[100, 120, - 5]" stub oor_zero "replicate 16 0",
        THEN conjunct1]
    unfolding f by (auto simp add: decode_run_player0_4 sc)
  have w2: "\<exists>y' p' err. Read stub oor_zero (SetVolume player0 (Finite 0 0)) (replicate 16 0)
         = Some (Inr (y', p', 16, err)) \<and> frame_at p' 2 = (0, 0)"
    using Read_output_samples [of "SetVolume player0 (Finite 0 0)" "[100, 120, - 5]" stub oor_zero
        "replicate 16 0", THEN conjunct1]
    by (auto simp add: SetVolume_def f)
  have w3: "\<exists>y' p' err. Read stub oor_zero (SetVolume player0 (Finite 1 0)) (replicate 16 0)
         = Some (Inr (y', p', 16, err)) \<and> frame_at p' 2 = (- 5, - 5)"
    using Read_output_samples [of "SetVolume player0 (Finite 1 0)" "[100, 120, - 5]" stub oor_zero
        "replicate 16 0", THEN conjunct1]
    by (auto simp add: SetVolume_def f decode_run_player0_4)
  have m: "f64_mul (f64_of_int16 (- 5)) (Finite 3 (- 2)) = Finite (- 15) (- 2)"
    by (simp add: f64_of_int16_def round53_def Let_def compute_bitlen)
  have t: "truncate_real (of_int (- 15) * 2 powi (- 2)) = - 3"
    by (simp add: truncate_real_def power_int_minus)
  have w4: "sint (scale_sample oor_zero (Finite 3 (- 2)) (- 5)) = - 3"
    using Read_output_samples [where s = "- 5" and v = "Finite 3 (- 2)" and m = "- 15"
        and e = "- 2" and K = oor_zero, THEN conjunct2, THEN conjunct1] m t
    by simp
  have m3: "f64_mul (f64_of_int16 100) (Finite 5404319552844595 (- 54))
              = Finite 8444249301319680 (- 48)"
    by (simp add: f64_of_int16_def round53_def rne_def Let_def compute_bitlen)
  have t3: "truncate_real (of_int 8444249301319680 * 2 powi (- 48)) = 30"
    by (simp add: truncate_real_def power_int_minus)
  have h3: "(0::int) \<le> 5404319552844595 \<and>
            of_int 5404319552844595 * 2 powi (- 54) \<le> (1::real)"
    by (simp add: power_int_minus)
  have w5: "sint (scale_sample oor_zero (Finite 5404319552844595 (- 54)) 100) = 30"
    using Read_output_samples [where s = 100 and vm = 5404319552844595 and ve = "- 54"
        and K = oor_zero, THEN conjunct2, THEN conjunct2, THEN mp, OF h3]
    unfolding m3 using t3 by auto
  from w1 w2 w3 w4 w5 show ?thesis by blast
qed

subsection \<open>The volume of a new adapter\<close>

text \<open>
  C10. When \<open>NewYMPlayer\<close> succeeds, \<open>GetVolume\<close> on the new adapter returns 0.5, and a
  first read returns frames that hold, left and right, half of each decoded sample, the
  fraction discarded.
\<close>

theorem NewYMPlayer_volume_half:
  "NewYMPlayer S data rate lp = (Inr y, ds) \<longrightarrow>
     GetVolume y = Finite 1 (- 1) \<and>
     f64_val (GetVolume y) = Some (1 / 2) \<and>
     (\<exists>d y' p' err.
        player y = Some d \<and>
        Read S K y p = Some (Inr (y', p', length p div 4 * 4, err)) \<and>
        (\<forall>k. k < length (decode_run S lp d (replicate 4096 0) (length p div 4)) \<longrightarrow>
           (\<exists>h. frame_at p' k = (h, h) \<and>
                sint h = truncate_real
                  (real_of_int (sint (decode_run S lp d (replicate 4096 0) (length p div 4) ! k))
                     * (1 / 2)))))"
proof
  assume n: "NewYMPlayer S data rate lp = (Inr y, ds)"
  obtain er d1 where l: "LoadMemory S (CreateWithRate S rate) data = (er, d1)"
    by (cases "LoadMemory S (CreateWithRate S rate) data") auto
  have er: "er = None"
    using n l by (cases er) (simp_all add: NewYMPlayer_def Let_def)
  define d where "d = SetLoopMode S d1 lp"
  have y: "player y = Some d" "buffer y = replicate 4096 0" "loop y = lp"
    "volume y = Finite 1 (- 1)"
    using n l er by (auto simp add: NewYMPlayer_def Let_def d_def)
  have ne: "buffer y \<noteq> []" by (simp add: y)
  from Read_frames [OF ne y(1), of S K p] obtain y' p' err where r:
    "Read S K y p = Some (Inr (y', p', length p div 4 * 4, err))"
    "\<forall>k. k < length (decode_run S lp d (replicate 4096 0) (length p div 4)) \<longrightarrow>
          frame_at p' k =
            (scale_sample K (Finite 1 (- 1)) (decode_run S lp d (replicate 4096 0) (length p div 4) ! k),
             scale_sample K (Finite 1 (- 1)) (decode_run S lp d (replicate 4096 0) (length p div 4) ! k))"
    unfolding y by blast
  have "\<forall>k. k < length (decode_run S lp d (replicate 4096 0) (length p div 4)) \<longrightarrow>
           (\<exists>h. frame_at p' k = (h, h) \<and>
                sint h = truncate_real
                  (real_of_int (sint (decode_run S lp d (replicate 4096 0) (length p div 4) ! k))
                     * (1 / 2)))"
    using r(2) scale_half_val by blast
  then show "GetVolume y = Finite 1 (- 1) \<and>
     f64_val (GetVolume y) = Some (1 / 2) \<and>
     (\<exists>d y' p' err.
        player y = Some d \<and>
        Read S K y p = Some (Inr (y', p', length p div 4 * 4, err)) \<and>
        (\<forall>k. k < length (decode_run S lp d (replicate 4096 0) (length p div 4)) \<longrightarrow>
           (\<exists>h. frame_at p' k = (h, h) \<and>
                sint h = truncate_real
                  (real_of_int (sint (decode_run S lp d (replicate 4096 0) (length p div 4) ! k))
                     * (1 / 2)))))"
    using y(1,4) r(1) by (auto simp add: GetVolume_def power_int_minus)
qed

theorem NewYMPlayer_volume_half_witness:
  "NewYMPlayer stub [100, 120, 251] 44100 False = (Inr player0, []) \<and>
   GetVolume player0 = Finite 1 (- 1) \<and>
   f64_val (GetVolume player0) = Some (1 / 2) \<and>
   (\<exists>y' p' err h.
      Read stub oor_zero player0 (replicate 16 0) = Some (Inr (y', p', 16, err)) \<and>
      frame_at p' 2 = (h, h) \<and> sint h = - 2)"
proof -
  have f: "player player0 = Some [100, 120, - 5]"
    by (simp add: player0_def)
  have t: "truncate_real (- (5 / 2)) = - 2"
    by (simp add: truncate_real_def ceiling_def)
  note w = NewYMPlayer_volume_half
            [of stub "[100, 120, 251]" 44100 False player0 "[]" oor_zero "replicate 16 0",
             THEN mp, OF NewYMPlayer_stub]
  from w obtain d y' p' err where r:
    "player player0 = Some d"
    "Read stub oor_zero player0 (replicate 16 0) = Some (Inr (y', p', 16, err))"
    "\<forall>k. k < length (decode_run stub False d (replicate 4096 0) 4) \<longrightarrow>
       (\<exists>h. frame_at p' k = (h, h) \<and>
            sint h = truncate_real
              (real_of_int (sint (decode_run stub False d (replicate 4096 0) 4 ! k)) * (1 / 2)))"
    by auto
  have d: "d = [100, 120, - 5]" using r(1) f by simp
  have "\<exists>h. frame_at p' 2 = (h, h) \<and> sint h = - 2"
    using r(3) [rule_format, of 2] unfolding d decode_run_player0_4 by (simp add: t)
  then show ?thesis
    using w r(2) NewYMPlayer_stub by blast
qed

subsection \<open>After Close\<close>

text \<open>
  What the other methods do on a closed adapter. None of them reads the handle:
  \<open>Seek\<close>, \<open>SetVolume\<close> and \<open>GetVolume\<close> act on the position and the volume as on an
  open adapter, a further \<open>Close\<close> does nothing, and a read of fewer than 4 bytes asks
  for no sample and returns 0 bytes and no error.
\<close>

lemma closed_adapter_other_methods:
  "fst (snd (Close y)) = y\<lparr>player := None\<rparr> \<and>
   Seek (y\<lparr>player := None\<rparr>) offset whence
     = (fst (Seek y offset whence), (snd (Seek y offset whence))\<lparr>player := None\<rparr>) \<and>
   SetVolume (y\<lparr>player := None\<rparr>) v = (SetVolume y v)\<lparr>player := None\<rparr> \<and>
   GetVolume (y\<lparr>player := None\<rparr>) = GetVolume y \<and>
   Close (y\<lparr>player := None\<rparr>) = (None, y\<lparr>player := None\<rparr>, []) \<and>
   (length p < 4 \<longrightarrow>
      Read S K (y\<lparr>player := None\<rparr>) p = Some (Inr (y\<lparr>player := None\<rparr>, p, 0, None)))"
proof -
  have a: "fst (snd (Close y)) = y\<lparr>player := None\<rparr>"
    by (cases "player y") (simp_all add: Close_def)
  have b: "Seek (y\<lparr>player := None\<rparr>) offset whence
     = (fst (Seek y offset whence), (snd (Seek y offset whence))\<lparr>player := None\<rparr>)"
    by (simp add: Seek_def Let_def)
  have c: "SetVolume (y\<lparr>player := None\<rparr>) v = (SetVolume y v)\<lparr>player := None\<rparr>"
    "GetVolume (y\<lparr>player := None\<rparr>) = GetVolume y"
    "Close (y\<lparr>player := None\<rparr>) = (None, y\<lparr>player := None\<rparr>, [])"
    by (simp_all add: SetVolume_def GetVolume_def Close_def)
  have d: "Read S K (y\<lparr>player := None\<rparr>) p = Some (Inr (y\<lparr>player := None\<rparr>, p, 0, None))"
    if "length p < 4"
    using that by (simp add: Read_def Read_loop.simps serialize_def)
  from a b c d show ?thesis by blast
qed

text \<open>
  C2. The code does not do what the claim says. \<open>Close\<close> tests the handle for nil
  before it uses it; \<open>Read\<close> does not. A read of 4 bytes or more on a closed adapter
  asks for at least one sample, enters the loop and calls \<open>Compute\<close> through the nil
  handle: it ends in the panic, not in a return with end-of-stream. This holds for
  every state and every slice of 4 bytes or more, and so for 4 bytes read from the
  closed \<open>player0\<close>.
\<close>

theorem Read_after_Close_panics:
  "Read S K (fst (snd (Close y))) (b0 # b1 # b2 # b3 # p) = Some (Inl NilPointerDereference) \<and>
   Read stub oor_zero (fst (snd (Close player0))) [0, 0, 0, 0]
     = Some (Inl NilPointerDereference)"
proof -
  have c: "fst (snd (Close z)) = z\<lparr>player := None\<rparr>" for z :: "'b YMPlayer"
    by (cases "player z") (simp_all add: Close_def)
  have r: "Read T K' (z\<lparr>player := None\<rparr>) (a0 # a1 # a2 # a3 # q)
             = Some (Inl NilPointerDereference)"
    for T :: "'b stsound" and K' z a0 a1 a2 a3 q
  proof -
    have "0 < length (a0 # a1 # a2 # a3 # q) div 4" by simp
    then have "Read_loop T K' (length (a0 # a1 # a2 # a3 # q) div 4) (z\<lparr>player := None\<rparr>)
                 (replicate (length (a0 # a1 # a2 # a3 # q) div 4 * 2) 0) 0
               = Some (Inl NilPointerDereference)"
      by (subst Read_loop.simps) (simp add: Let_def)
    then show ?thesis
      unfolding Read_def Let_def by simp
  qed
  show ?thesis
    unfolding c using r [of S K y b0 b1 b2 b3 p] r [of stub oor_zero player0 0 0 0 0 "[]"]
    by simp
qed

end
